theory Spec2Isabelle
  imports Main "HOL-Library.Word" "HOL-Library.Multiset"
begin

section \<open>dynarr.h: the memory model\<close>

text \<open>
  A dynarr is one heap block: a header \<^verbatim>\<open>struct dynarr { int capa, elem, offs, size; }\<close>
  followed by the element bytes. The public pointer \<^verbatim>\<open>A\<close> points just behind the
  header. The model keeps the four header fields as they are (C \<^verbatim>\<open>int\<close>, here
  \<^typ>\<open>int\<close> with the range of a 32-bit \<^verbatim>\<open>int\<close> checked where the source
  computes a size from an argument or doubles one) and the bytes behind the header
  as a list \<open>buf\<close>, whose length is the number of bytes the block reserves for
  elements. An address is a byte offset from \<^verbatim>\<open>A\<close>.

  Every access of the source that leaves the block, every \<^verbatim>\<open>memcpy\<close> between
  overlapping ranges, every failed \<^verbatim>\<open>DARR_ASSERT\<close>, a variable-length array
  of no positive size and every signed overflow of the size arithmetic of
  \<^verbatim>\<open>dynarrGrow\<close>, \<^verbatim>\<open>dynarrResize\<close> and \<^verbatim>\<open>dynarrCapacity\<close> (undefined
  behaviour in C) is a \<open>fault\<close>; the functions return \<open>fault + result\<close>. The
  remaining arithmetic is on offsets inside the block, which a block of at most
  \<open>INT_MAX\<close> bytes keeps in range.

  \<^verbatim>\<open>dynarrFindBinary\<close> and \<^verbatim>\<open>dynarrSortStandard\<close> hand the array to
  \<^verbatim>\<open>bsearch\<close> and \<^verbatim>\<open>qsort\<close> of the C library and are not part of this theory, nor
  are \<^verbatim>\<open>dynarrFree\<close>, \<^verbatim>\<open>DYNARR_FIRST\<close> and \<^verbatim>\<open>DYNARR_LAST\<close>.
\<close>

type_synonym byte = "8 word"

datatype fault = AssertFail | OutOfBounds | Overlap | VlaSize | Overflow

record dynarr =
  capa :: int
  elem :: int
  offs :: int
  size_d :: int
  buf :: "byte list"

text \<open>
  \<^verbatim>\<open>DYNARR_REALLOC\<close> and \<^verbatim>\<open>DYNARR_ZALLOC\<close> are configuration points of the
  source. The reallocator is a parameter: asked for a number of bytes it fails
  (\<open>None\<close>) or succeeds with the content of the bytes the block gains, which C
  leaves indeterminate.
\<close>

type_synonym alloc = "int \<Rightarrow> (nat \<Rightarrow> byte) option"

definition hdr :: int where
  \<comment> \<open>\<^verbatim>\<open>sizeof(struct dynarr)\<close>: four ints of four bytes\<close>
  "hdr = 16"

definition INT_MAX :: int where
  "INT_MAX = 2147483647"

definition INT_MIN :: int where
  "INT_MIN = - 2147483648"

definition fits :: "int \<Rightarrow> bool" where
  \<comment> \<open>the value is one of a 32-bit \<^verbatim>\<open>int\<close>\<close>
  "fits x \<longleftrightarrow> INT_MIN \<le> x \<and> x \<le> INT_MAX"

definition DYNARR_REALLOC :: "alloc \<Rightarrow> byte list \<Rightarrow> int \<Rightarrow> byte list option" where
  "DYNARR_REALLOC ra b n =
     (case ra n of
        None \<Rightarrow> None
      | Some junk \<Rightarrow> Some (take (nat (n - hdr)) b @ map junk [length b ..< nat (n - hdr)]))"

definition in_range :: "byte list \<Rightarrow> int \<Rightarrow> int \<Rightarrow> bool" where
  "in_range b p n \<longleftrightarrow> 0 \<le> p \<and> 0 \<le> n \<and> p + n \<le> int (length b)"

definition memmove_b :: "byte list \<Rightarrow> int \<Rightarrow> int \<Rightarrow> int \<Rightarrow> fault + byte list" where
  "memmove_b b dst src n =
     (if in_range b dst n \<and> in_range b src n
      then Inr (take (nat dst) b @ take (nat n) (drop (nat src) b) @ drop (nat (dst + n)) b)
      else Inl OutOfBounds)"

definition memcpy_b :: "byte list \<Rightarrow> int \<Rightarrow> int \<Rightarrow> int \<Rightarrow> fault + byte list" where
  "memcpy_b b dst src n =
     (if 0 < n \<and> dst < src + n \<and> src < dst + n then Inl Overlap
      else memmove_b b dst src n)"

definition memset_b :: "byte list \<Rightarrow> int \<Rightarrow> byte \<Rightarrow> int \<Rightarrow> fault + byte list" where
  "memset_b b dst c n =
     (if in_range b dst n
      then Inr (take (nat dst) b @ replicate (nat n) c @ drop (nat (dst + n)) b)
      else Inl OutOfBounds)"

definition load :: "byte list \<Rightarrow> int \<Rightarrow> int \<Rightarrow> fault + byte list" where
  \<comment> \<open>reading \<open>n\<close> bytes at address \<open>p\<close>\<close>
  "load b p n =
     (if in_range b p n then Inr (take (nat n) (drop (nat p) b)) else Inl OutOfBounds)"

definition store :: "byte list \<Rightarrow> int \<Rightarrow> byte list \<Rightarrow> fault + byte list" where
  \<comment> \<open>writing the bytes \<open>v\<close> at address \<open>p\<close>\<close>
  "store b p v =
     (if in_range b p (int (length v))
      then Inr (take (nat p) b @ v @ drop (nat p + length v) b)
      else Inl OutOfBounds)"

fun memcmp_b :: "byte list \<Rightarrow> byte list \<Rightarrow> int" where
  "memcmp_b (x # xs) (y # ys) =
     (if x = y then memcmp_b xs ys else if x < y then - 1 else 1)"
| "memcmp_b _ _ = 0"

section \<open>The header macros and the typed element access\<close>

definition DARR_EPTR :: "dynarr \<Rightarrow> int \<Rightarrow> int" where
  \<comment> \<open>\<^verbatim>\<open>&((char*)(A))[DARR_ELEM(A)*(DARR_OFFS(A)+(I))]\<close>\<close>
  "DARR_EPTR a i = elem a * (offs a + i)"

definition slot :: "dynarr \<Rightarrow> int \<Rightarrow> int" where
  \<comment> \<open>\<^verbatim>\<open>&(A)[K]\<close> for \<^verbatim>\<open>A\<close> of type \<^verbatim>\<open>T*\<close>, \<^verbatim>\<open>sizeof(T) = elem\<close>\<close>
  "slot a k = elem a * k"

definition DYNARR_SIZE :: "dynarr \<Rightarrow> int" where
  "DYNARR_SIZE a = size_d a"

definition DYNARR_VALID :: "dynarr \<Rightarrow> int \<Rightarrow> bool" where
  "DYNARR_VALID a i \<longleftrightarrow> i \<ge> 0 \<and> i < size_d a"

definition DYNARR_AT :: "dynarr \<Rightarrow> int \<Rightarrow> fault + byte list" where
  "DYNARR_AT a i =
     (if \<not> DYNARR_VALID a i then Inl AssertFail
      else load (buf a) (slot a (offs a + i)) (elem a))"

definition DYNARR_CLEAR :: "dynarr \<Rightarrow> dynarr" where
  "DYNARR_CLEAR a = a\<lparr>size_d := 0, offs := 0\<rparr>"

section \<open>The functions\<close>

definition dynarrNew :: "(int \<Rightarrow> bool) \<Rightarrow> int \<Rightarrow> dynarr option" where
  \<comment> \<open>\<open>za\<close> tells whether \<^verbatim>\<open>DYNARR_ZALLOC\<close> succeeds for that many bytes\<close>
  "dynarrNew za e =
     (if \<not> za (hdr + e) then None
      else Some \<lparr>capa = 1, elem = e, offs = 0, size_d = 0, buf = replicate (nat e) 0\<rparr>)"

definition dynarrGrow :: "alloc \<Rightarrow> dynarr \<Rightarrow> fault + (int \<times> dynarr)" where
  "dynarrGrow ra a =
     (if offs a + size_d a = capa a then
        (if offs a \<ge> size_d a then
           (case memcpy_b (buf a) 0 (DARR_EPTR a 0) (elem a * size_d a) of
              Inl f \<Rightarrow> Inl f
            | Inr b \<Rightarrow> Inr (0, a\<lparr>buf := b, offs := 0\<rparr>))
         else if fits (elem a * capa a) \<and> fits (elem a * capa a * 2) then
           (case DYNARR_REALLOC ra (buf a) (hdr + elem a * capa a * 2) of
              None \<Rightarrow> Inr (- 1, a)
            | Some b \<Rightarrow>
                (if fits (capa a * 2) then Inr (0, a\<lparr>buf := b, capa := capa a * 2\<rparr>)
                 else Inl Overflow))
         else Inl Overflow)
      else Inr (0, a))"

definition reset_offset :: "dynarr \<Rightarrow> fault + dynarr" where
  \<comment> \<open>the block \<^verbatim>\<open>if (DARR_OFFS(*a)) { memmove(...); DARR_OFFS(*a) = 0; }\<close> of
      \<^verbatim>\<open>dynarrResize\<close> and \<^verbatim>\<open>dynarrCapacity\<close>\<close>
  "reset_offset a =
     (if offs a \<noteq> 0 then
        (case memmove_b (buf a) 0 (DARR_EPTR a 0) (elem a * size_d a) of
           Inl f \<Rightarrow> Inl f
         | Inr b \<Rightarrow> Inr (a\<lparr>buf := b, offs := 0\<rparr>))
      else Inr a)"

definition zero_new_elements :: "dynarr \<Rightarrow> int \<Rightarrow> fault + (int \<times> dynarr)" where
  \<comment> \<open>the end of the growing branch of \<^verbatim>\<open>dynarrResize\<close>: the \<^verbatim>\<open>memset\<close>, the new
      size, and the return of \<^verbatim>\<open>DARR_SIZE(*a)\<close>\<close>
  "zero_new_elements a s =
     (if fits (s - size_d a) \<and> fits (elem a * (s - size_d a)) then
        (case memset_b (buf a) (DARR_EPTR a (size_d a)) 0 (elem a * (s - size_d a)) of
           Inl f \<Rightarrow> Inl f
         | Inr b \<Rightarrow> Inr (s, a\<lparr>buf := b, size_d := s\<rparr>))
      else Inl Overflow)"

definition dynarrResize :: "alloc \<Rightarrow> dynarr \<Rightarrow> int \<Rightarrow> fault + (int \<times> dynarr)" where
  "dynarrResize ra a s =
     (if s < size_d a then
        (let a1 = a\<lparr>size_d := (if s < 0 then 0 else s)\<rparr>;
             a2 = (if size_d a1 = 0 then a1\<lparr>offs := 0\<rparr> else a1)
         in Inr (size_d a2, a2))
      else if s > size_d a then
        (if \<not> fits (offs a + s) then Inl Overflow
         else if offs a + s > capa a then
           (case reset_offset a of
              Inl f \<Rightarrow> Inl f
            | Inr a1 \<Rightarrow>
                (if s > capa a1 then
                   (if fits (elem a1 * s) then
                      (case DYNARR_REALLOC ra (buf a1) (hdr + elem a1 * s) of
                         None \<Rightarrow> Inr (- 1, a1)
                       | Some b \<Rightarrow> zero_new_elements (a1\<lparr>buf := b, capa := s\<rparr>) s)
                    else Inl Overflow)
                 else zero_new_elements a1 s))
         else zero_new_elements a s)
      else Inr (size_d a, a))"

definition dynarrCapacity :: "alloc \<Rightarrow> dynarr \<Rightarrow> int \<Rightarrow> fault + (int \<times> dynarr)" where
  "dynarrCapacity ra a c0 =
     (let c = (if c0 < size_d a then size_d a else c0) in
      case reset_offset a of
        Inl f \<Rightarrow> Inl f
      | Inr a1 \<Rightarrow>
          (if c \<noteq> capa a1 then
             (if fits (elem a1 * c) then
                (case DYNARR_REALLOC ra (buf a1) (hdr + elem a1 * c) of
                   None \<Rightarrow> Inr (- 1, a1)
                 | Some b \<Rightarrow> Inr (c, a1\<lparr>buf := b, capa := c\<rparr>))
              else Inl Overflow)
           else Inr (capa a1, a1)))"

section \<open>The macros that change the array\<close>

definition DYNARR_PUSH :: "alloc \<Rightarrow> dynarr \<Rightarrow> byte list \<Rightarrow> fault + (int \<times> dynarr)" where
  "DYNARR_PUSH ra a v =
     (case dynarrGrow ra a of
        Inl f \<Rightarrow> Inl f
      | Inr (r, a1) \<Rightarrow>
          (if r \<noteq> 0 then Inr (- 1, a1)
           else (case store (buf a1) (slot a1 (offs a1 + size_d a1)) v of
                   Inl f \<Rightarrow> Inl f
                 | Inr b \<Rightarrow> Inr (size_d a1, a1\<lparr>buf := b, size_d := size_d a1 + 1\<rparr>))))"

definition DYNARR_POP :: "dynarr \<Rightarrow> fault + (byte list \<times> dynarr)" where
  "DYNARR_POP a =
     (if size_d a = 0 then Inl AssertFail
      else (let a1 = a\<lparr>size_d := size_d a - 1\<rparr> in
            case load (buf a1) (slot a1 (offs a1 + size_d a1)) (elem a1) of
              Inl f \<Rightarrow> Inl f
            | Inr v \<Rightarrow> Inr (v, a1)))"

definition DYNARR_DEQUEUE :: "dynarr \<Rightarrow> fault + (byte list \<times> dynarr)" where
  "DYNARR_DEQUEUE a =
     (if size_d a = 0 then Inl AssertFail
      else (let a1 = a\<lparr>size_d := size_d a - 1\<rparr> in
            case load (buf a1) (slot a1 (offs a1)) (elem a1) of
              Inl f \<Rightarrow> Inl f
            | Inr v \<Rightarrow> Inr (v, a1\<lparr>offs := offs a1 + 1\<rparr>)))"

definition DYNARR_INSERT :: "alloc \<Rightarrow> dynarr \<Rightarrow> int \<Rightarrow> byte list \<Rightarrow> fault + (int \<times> dynarr)" where
  "DYNARR_INSERT ra a i v =
     (if \<not> DYNARR_VALID a i then Inl AssertFail
      else (case dynarrGrow ra a of
              Inl f \<Rightarrow> Inl f
            | Inr (r, a1) \<Rightarrow>
                (if r \<noteq> 0 then Inr (- 1, a1)
                 else (case memmove_b (buf a1) (slot a1 (offs a1 + i + 1)) (slot a1 (offs a1 + i))
                              (elem a1 * (size_d a1 - i)) of
                         Inl f \<Rightarrow> Inl f
                       | Inr b1 \<Rightarrow>
                           (case store b1 (slot a1 (offs a1 + i)) v of
                              Inl f \<Rightarrow> Inl f
                            | Inr b2 \<Rightarrow> Inr (i, a1\<lparr>buf := b2, size_d := size_d a1 + 1\<rparr>))))))"

definition DYNARR_SHOVE :: "alloc \<Rightarrow> dynarr \<Rightarrow> int \<Rightarrow> byte list \<Rightarrow> fault + (int \<times> dynarr)" where
  \<comment> \<open>the value pushed is the expression \<^verbatim>\<open>(A)[DARR_OFFS(A)+(I)]\<close>, which the
      expansion of \<^verbatim>\<open>DYNARR_PUSH\<close> evaluates after \<^verbatim>\<open>dynarrGrow\<close>; the result of
      the push is then compared with -1\<close>
  "DYNARR_SHOVE ra a i v =
     (if \<not> DYNARR_VALID a i then Inl AssertFail
      else (case (case dynarrGrow ra a of
                    Inl f \<Rightarrow> Inl f
                  | Inr (r, a1) \<Rightarrow>
                      (if r \<noteq> 0 then Inr (- 1, a1)
                       else (case load (buf a1) (slot a1 (offs a1 + i)) (elem a1) of
                               Inl f \<Rightarrow> Inl f
                             | Inr w \<Rightarrow>
                                 (case store (buf a1) (slot a1 (offs a1 + size_d a1)) w of
                                    Inl f \<Rightarrow> Inl f
                                  | Inr b \<Rightarrow>
                                      Inr (size_d a1,
                                           a1\<lparr>buf := b, size_d := size_d a1 + 1\<rparr>))))) of
              Inl f \<Rightarrow> Inl f
            | Inr (p, a2) \<Rightarrow>
                (if p = - 1 then Inr (- 1, a2)
                 else (case store (buf a2) (slot a2 (offs a2 + i)) v of
                         Inl f \<Rightarrow> Inl f
                       | Inr b \<Rightarrow> Inr (i, a2\<lparr>buf := b\<rparr>)))))"

definition DYNARR_REMOVE :: "dynarr \<Rightarrow> int \<Rightarrow> fault + dynarr" where
  "DYNARR_REMOVE a i =
     (if \<not> DYNARR_VALID a i then Inl AssertFail
      else (let a1 = a\<lparr>size_d := size_d a - 1\<rparr> in
            case memmove_b (buf a1) (slot a1 (offs a1 + i)) (slot a1 (offs a1 + i + 1))
                   (elem a1 * (size_d a1 - i)) of
              Inl f \<Rightarrow> Inl f
            | Inr b \<Rightarrow> Inr (a1\<lparr>buf := b\<rparr>)))"

definition DYNARR_DITCH :: "dynarr \<Rightarrow> int \<Rightarrow> fault + dynarr" where
  "DYNARR_DITCH a i =
     (if \<not> DYNARR_VALID a i then Inl AssertFail
      else (case DYNARR_POP a of
              Inl f \<Rightarrow> Inl f
            | Inr (w, a1) \<Rightarrow>
                (case store (buf a1) (slot a1 (offs a1 + i)) w of
                   Inl f \<Rightarrow> Inl f
                 | Inr b \<Rightarrow> Inr (a1\<lparr>buf := b\<rparr>))))"

section \<open>Searching and sorting\<close>

function dynarrFindLinear_loop :: "dynarr \<Rightarrow> byte list \<Rightarrow> int \<Rightarrow> fault + int" where
  "dynarrFindLinear_loop a k i =
     (if i < size_d a then
        (case load k 0 (elem a) of
           Inl f \<Rightarrow> Inl f
         | Inr kb \<Rightarrow>
             (case load (buf a) (DARR_EPTR a i) (elem a) of
                Inl f \<Rightarrow> Inl f
              | Inr eb \<Rightarrow>
                  (if memcmp_b kb eb = 0 then Inr i
                   else dynarrFindLinear_loop a k (i + 1))))
      else Inr (- 1))"
  by pat_completeness auto
termination
  by (relation "measure (\<lambda>(a, k, i). nat (size_d a - i))") auto

declare dynarrFindLinear_loop.simps [simp del]

definition dynarrFindLinear :: "dynarr \<Rightarrow> byte list \<Rightarrow> fault + int" where
  \<comment> \<open>the key \<open>k\<close> is the object \<^verbatim>\<open>k\<close> points to\<close>
  "dynarrFindLinear a k = dynarrFindLinear_loop a k 0"

definition swap_step :: "dynarr \<Rightarrow> int \<Rightarrow> fault + dynarr" where
  \<comment> \<open>the body of the inner loop of \<^verbatim>\<open>dynarrSortInsert\<close>: the three \<^verbatim>\<open>memcpy\<close>
      through \<^verbatim>\<open>char temp[DARR_ELEM(a)]\<close>\<close>
  "swap_step a i =
     (if elem a \<le> 0 then Inl VlaSize
      else (case load (buf a) (DARR_EPTR a i) (elem a) of
              Inl f \<Rightarrow> Inl f
            | Inr temp \<Rightarrow>
                (case memcpy_b (buf a) (DARR_EPTR a i) (DARR_EPTR a (i - 1)) (elem a) of
                   Inl f \<Rightarrow> Inl f
                 | Inr b1 \<Rightarrow>
                     (case store b1 (DARR_EPTR a (i - 1)) temp of
                        Inl f \<Rightarrow> Inl f
                      | Inr b2 \<Rightarrow> Inr (a\<lparr>buf := b2\<rparr>)))))"

type_synonym comparator = "byte list \<Rightarrow> byte list \<Rightarrow> int"

function dynarrSortInsert_inner :: "comparator \<Rightarrow> dynarr \<Rightarrow> int \<Rightarrow> fault + dynarr" where
  "dynarrSortInsert_inner cmp a i =
     (if i > 0 then
        (case load (buf a) (DARR_EPTR a (i - 1)) (elem a) of
           Inl f \<Rightarrow> Inl f
         | Inr x \<Rightarrow>
             (case load (buf a) (DARR_EPTR a i) (elem a) of
                Inl f \<Rightarrow> Inl f
              | Inr y \<Rightarrow>
                  (if cmp x y > 0 then
                     (case swap_step a i of
                        Inl f \<Rightarrow> Inl f
                      | Inr a1 \<Rightarrow> dynarrSortInsert_inner cmp a1 (i - 1))
                   else Inr a)))
      else Inr a)"
  by pat_completeness auto
termination
  by (relation "measure (\<lambda>(cmp, a, i). nat i)") auto

declare dynarrSortInsert_inner.simps [simp del]

lemma swap_step_size: "swap_step a i = Inr a1 \<Longrightarrow> size_d a1 = size_d a"
  by (auto simp: swap_step_def split: if_splits sum.splits)

lemma dynarrSortInsert_inner_size:
  "dynarrSortInsert_inner cmp a i = Inr a1 \<Longrightarrow> size_d a1 = size_d a"
proof (induction cmp a i rule: dynarrSortInsert_inner.induct)
  case (1 cmp a i)
  show ?case
  proof (cases "i > 0")
    case False
    with "1.prems" show ?thesis by (simp add: dynarrSortInsert_inner.simps [of cmp a i])
  next
    case True
    note unf = "1.prems" [unfolded dynarrSortInsert_inner.simps [of cmp a i]]
    from unf True obtain x y where
      x: "load (buf a) (DARR_EPTR a (i - 1)) (elem a) = Inr x" and
      y: "load (buf a) (DARR_EPTR a i) (elem a) = Inr y"
      by (auto split: sum.splits)
    show ?thesis
    proof (cases "cmp x y > 0")
      case False
      with unf True x y show ?thesis by simp
    next
      case gt: True
      with unf True x y obtain a2 where
        s: "swap_step a i = Inr a2" and r: "dynarrSortInsert_inner cmp a2 (i - 1) = Inr a1"
        by (auto split: sum.splits)
      from "1.IH" [OF True x y gt s r] swap_step_size [OF s] show ?thesis by simp
    qed
  qed
qed

function dynarrSortInsert_outer :: "comparator \<Rightarrow> dynarr \<Rightarrow> int \<Rightarrow> fault + dynarr" where
  "dynarrSortInsert_outer cmp a j =
     (if j < size_d a then
        (case dynarrSortInsert_inner cmp a j of
           Inl f \<Rightarrow> Inl f
         | Inr a1 \<Rightarrow> dynarrSortInsert_outer cmp a1 (j + 1))
      else Inr a)"
  by pat_completeness auto
termination
  by (relation "measure (\<lambda>(cmp, a, j). nat (size_d a - j))")
     (auto dest: dynarrSortInsert_inner_size)

declare dynarrSortInsert_outer.simps [simp del]

definition dynarrSortInsert :: "dynarr \<Rightarrow> comparator \<Rightarrow> fault + dynarr" where
  "dynarrSortInsert a cmp = dynarrSortInsert_outer cmp a 1"

section \<open>Operations as data, and runs\<close>

datatype op =
    Push "byte list" | Pop | Dequeue
  | Insert int "byte list" | Shove int "byte list"
  | Remove int | Ditch int
  | Resize int | Capacity int | Clear

fun exec :: "alloc \<Rightarrow> op \<Rightarrow> dynarr \<Rightarrow> fault + dynarr" where
  "exec ra (Push v) a = map_sum id snd (DYNARR_PUSH ra a v)"
| "exec ra Pop a = map_sum id snd (DYNARR_POP a)"
| "exec ra Dequeue a = map_sum id snd (DYNARR_DEQUEUE a)"
| "exec ra (Insert i v) a = map_sum id snd (DYNARR_INSERT ra a i v)"
| "exec ra (Shove i v) a = map_sum id snd (DYNARR_SHOVE ra a i v)"
| "exec ra (Remove i) a = DYNARR_REMOVE a i"
| "exec ra (Ditch i) a = DYNARR_DITCH a i"
| "exec ra (Resize s) a = map_sum id snd (dynarrResize ra a s)"
| "exec ra (Capacity c) a = map_sum id snd (dynarrCapacity ra a c)"
| "exec ra Clear a = Inr (DYNARR_CLEAR a)"

fun run :: "alloc \<Rightarrow> op list \<Rightarrow> dynarr \<Rightarrow> fault + dynarr" where
  "run ra [] a = Inr a"
| "run ra (x # xs) a = (case exec ra x a of Inl f \<Rightarrow> Inl f | Inr a1 \<Rightarrow> run ra xs a1)"

text \<open>The preconditions of the operations: the assertions of the macros, and a value of
  the element size where a value is stored.\<close>

fun pre :: "op \<Rightarrow> dynarr \<Rightarrow> bool" where
  "pre (Push v) a \<longleftrightarrow> int (length v) = elem a"
| "pre Pop a \<longleftrightarrow> 0 < size_d a"
| "pre Dequeue a \<longleftrightarrow> 0 < size_d a"
| "pre (Insert i v) a \<longleftrightarrow> DYNARR_VALID a i \<and> int (length v) = elem a"
| "pre (Shove i v) a \<longleftrightarrow> DYNARR_VALID a i \<and> int (length v) = elem a"
| "pre (Remove i) a \<longleftrightarrow> DYNARR_VALID a i"
| "pre (Ditch i) a \<longleftrightarrow> DYNARR_VALID a i"
| "pre (Resize s) a \<longleftrightarrow> True"
| "pre (Capacity c) a \<longleftrightarrow> True"
| "pre Clear a \<longleftrightarrow> True"

section \<open>The representation invariant and the logical contents\<close>

definition wf :: "dynarr \<Rightarrow> bool" where
  \<comment> \<open>the invariants of the header, an element size as \<^verbatim>\<open>sizeof\<close> gives it, and a
      block that reserves \<open>capa\<close> elements\<close>
  "wf a \<longleftrightarrow>
     0 < elem a \<and> 0 \<le> offs a \<and> 0 \<le> size_d a \<and> offs a + size_d a \<le> capa a \<and>
     int (length (buf a)) = elem a * capa a"

definition element :: "dynarr \<Rightarrow> nat \<Rightarrow> byte list" where
  \<comment> \<open>the bytes of logical element \<open>i\<close>: \<open>elem\<close> bytes at \<^verbatim>\<open>DARR_EPTR(a, i)\<close>\<close>
  "element a i = take (nat (elem a)) (drop (nat (DARR_EPTR a (int i))) (buf a))"

definition elems :: "dynarr \<Rightarrow> byte list list" where
  "elems a = map (element a) [0 ..< nat (size_d a)]"

text \<open>
  For the proofs the block is read in cells of \<open>e\<close> bytes: \<open>cell e b k\<close> is what
  \<^verbatim>\<open>((T*)A)[k]\<close> holds, and \<open>block e c b\<close> says that \<open>b\<close> has room for exactly
  \<open>c\<close> such cells.
\<close>

definition cell :: "int \<Rightarrow> byte list \<Rightarrow> int \<Rightarrow> byte list" where
  "cell e b k = take (nat e) (drop (nat (e * k)) b)"

definition block :: "int \<Rightarrow> int \<Rightarrow> byte list \<Rightarrow> bool" where
  "block e c b \<longleftrightarrow> 0 < e \<and> 0 \<le> c \<and> int (length b) = e * c"

text \<open>
  For the concrete runs: an allocator that always succeeds, one that always fails, and a
  comparison function.
\<close>

definition ra_ok :: alloc where
  "ra_ok = (\<lambda>n. Some (\<lambda>k. 0))"

definition ra_fail :: alloc where
  "ra_fail = (\<lambda>n. None)"

definition za_ok :: "int \<Rightarrow> bool" where
  "za_ok = (\<lambda>n. True)"

definition by_first_byte :: comparator where
  \<comment> \<open>a comparison function for the concrete runs: it looks at the first byte only\<close>
  "by_first_byte x y = (if hd x < hd y then - 1 else if hd y < hd x then 1 else 0)"

section \<open>The loops of the sort, on the list of elements\<close>

text \<open>
  The two loops of \<^verbatim>\<open>dynarrSortInsert\<close>, read on the list of elements: the inner
  loop swaps the element at \<open>i\<close> with its left neighbour while that one is greater,
  the outer loop does so for \<open>j, j + 1, \<dots>\<close>
\<close>

fun insert_down :: "('a \<Rightarrow> 'a \<Rightarrow> int) \<Rightarrow> 'a list \<Rightarrow> nat \<Rightarrow> 'a list" where
  "insert_down cmp xs 0 = xs"
| "insert_down cmp xs (Suc m) =
     (if cmp (xs ! m) (xs ! Suc m) > 0
      then insert_down cmp (xs[Suc m := xs ! m, m := xs ! Suc m]) m
      else xs)"

fun passes :: "('a \<Rightarrow> 'a \<Rightarrow> int) \<Rightarrow> 'a list \<Rightarrow> nat \<Rightarrow> nat \<Rightarrow> 'a list" where
  "passes cmp xs j 0 = xs"
| "passes cmp xs j (Suc n) = passes cmp (insert_down cmp xs j) (Suc j) n"

definition consistent_order :: "('a \<Rightarrow> 'a \<Rightarrow> int) \<Rightarrow> bool" where
  \<comment> \<open>what the source asks of a comparison function: the sign of \<open>cmp y x\<close> is the
      opposite of the sign of \<open>cmp x y\<close>, and \<open>\<le>\<close> is transitive\<close>
  "consistent_order cmp \<longleftrightarrow>
     (\<forall>x y. (0 < cmp x y) = (cmp y x < 0)) \<and>
     (\<forall>x y z. cmp x y \<le> 0 \<and> cmp y z \<le> 0 \<longrightarrow> cmp x z \<le> 0)"

definition adjacent_sorted :: "('a \<Rightarrow> 'a \<Rightarrow> int) \<Rightarrow> 'a list \<Rightarrow> bool" where
  "adjacent_sorted cmp xs \<longleftrightarrow> (\<forall>i. Suc i < length xs \<longrightarrow> cmp (xs ! i) (xs ! Suc i) \<le> 0)"

section \<open>Bytes and cells\<close>

text \<open>Index arithmetic in a block of cells, and the bytes of a list after a copy.\<close>
lemma idx_less: "j < E \<Longrightarrow> (E * k + j < E * m) = (k < (m::nat))"
proof
  assume j: "j < E" and lt: "E * k + j < E * m"
  show "k < m"
  proof (rule ccontr)
    assume "\<not> k < m"
    then have "E * m \<le> E * k" by (intro mult_le_mono2) simp
    with lt show False by simp
  qed
next
  assume j: "j < E" and "k < m"
  then have "Suc k \<le> m" by simp
  then have "E * Suc k \<le> E * m" by (rule mult_le_mono2)
  with j show "E * k + j < E * m" by simp
qed

lemma idx_le: "j < E \<Longrightarrow> (E * d \<le> E * k + j) = (d \<le> (k::nat))"
  using idx_less [of j E k d] by (simp add: not_less [symmetric])

lemma move_nth:
  assumes "d + n \<le> length b" "s + n \<le> length b" "j < length b"
  shows "(take d b @ take n (drop s b) @ drop (d + n) b) ! j =
         (if d \<le> j \<and> j < d + n then b ! (s + (j - d)) else b ! j)"
proof -
  from assms have l1: "length (take d b) = d" and l2: "length (take n (drop s b)) = n"
    by simp_all
  show ?thesis
    using assms by (auto simp: nth_append l1 l2 simp del: length_take length_drop)
qed

lemma put_nth:
  assumes "p + length v \<le> length b" "j < length b"
  shows "(take p b @ v @ drop (p + length v) b) ! j =
         (if p \<le> j \<and> j < p + length v then v ! (j - p) else b ! j)"
proof -
  from assms have l1: "length (take p b) = p" by simp
  show ?thesis
    using assms by (auto simp: nth_append l1 simp del: length_take)
qed

lemma cells_eqI:
  assumes "E * k + E \<le> length r" "E * k' + E \<le> length b"
    and "\<And>j. j < E \<Longrightarrow> r ! (E * k + j) = b ! (E * k' + j)"
  shows "take E (drop (E * k) r) = take E (drop (E * k') b)"
proof (rule nth_equalityI)
  from assms(1,2) show "length (take E (drop (E * k) r)) = length (take E (drop (E * k') b))"
    by simp
next
  fix i assume "i < length (take E (drop (E * k) r))"
  then have i: "i < E" by simp
  with assms show "take E (drop (E * k) r) ! i = take E (drop (E * k') b) ! i"
    by simp
qed

lemma cell_nat: "0 \<le> e \<Longrightarrow> 0 \<le> k \<Longrightarrow> cell e b k = take (nat e) (drop (nat e * nat k) b)"
  by (simp add: cell_def nat_mult_distrib)

lemma length_nat:
  assumes "0 \<le> e" "0 \<le> c" "int (length b) = e * c"
  shows "length b = nat e * nat c"
  using assms by (metis nat_int nat_mult_distrib)

lemma cell_fits:
  assumes "0 \<le> k" "k < c"
  shows "nat e * nat k + nat e \<le> nat e * nat c"
proof -
  from assms have "Suc (nat k) \<le> nat c" by simp
  then have "nat e * Suc (nat k) \<le> nat e * nat c" by (rule mult_le_mono2)
  then show ?thesis by simp
qed

lemma length_cell:
  assumes "0 < e" "0 \<le> k" "k < c" "int (length b) = e * c"
  shows "length (cell e b k) = nat e"
proof -
  from assms have l: "length b = nat e * nat c" by (intro length_nat) simp_all
  from cell_fits [OF assms(2,3), of e]
  have "nat e \<le> nat e * nat c - nat e * nat k" by arith
  with l assms show ?thesis
    by (simp add: cell_nat min_absorb2)
qed

lemma scale_sum: "k + m \<le> c \<Longrightarrow> E * k + E * m \<le> E * (c::nat)"
  by (metis add_mult_distrib2 mult_le_mono2)

lemma scale_fit: "K < C \<Longrightarrow> E * K + E \<le> E * (C::nat)"
  using scale_sum [of K 1 C E] by simp

lemma move_length_nat:
  assumes len: "length b = E * C" and dn: "D + N \<le> C" and sn: "S + N \<le> C"
  shows "length (take (E * D) b @ take (E * N) (drop (E * S) b) @ drop (E * D + E * N) b) =
         length b"
  using scale_sum [OF dn, of E] scale_sum [OF sn, of E] len by simp

lemma put_length_nat:
  assumes len: "length b = E * C" and dn: "D + N \<le> C" and lv: "length v = E * N"
  shows "length (take (E * D) b @ v @ drop (E * D + E * N) b) = length b"
  using scale_sum [OF dn, of E] len lv by simp

lemma move_cells_nat:
  assumes len: "length b = E * C" and dn: "D + N \<le> C" and sn: "S + N \<le> C" and k: "K < C"
    and r: "r = take (E * D) b @ take (E * N) (drop (E * S) b) @ drop (E * D + E * N) b"
  shows "take E (drop (E * K) r) =
         (if D \<le> K \<and> K < D + N then take E (drop (E * (S + (K - D))) b)
          else take E (drop (E * K) b))"
proof -
  have bd: "E * D + E * N \<le> length b" and bs: "E * S + E * N \<le> length b"
    using scale_sum [OF dn, of E] scale_sum [OF sn, of E] len by simp_all
  have lr: "length r = length b" using bd bs by (simp add: r)
  have fk: "E * K + E \<le> length b" using scale_fit [OF k, of E] len by simp
  have nth: "r ! (E * K + j) =
      (if D \<le> K \<and> K < D + N then b ! (E * S + (E * K + j - E * D)) else b ! (E * K + j))"
    if j: "j < E" for j
  proof -
    from j fk have "E * K + j < length b" by simp
    from move_nth [OF bd bs this] idx_le [OF j, of D K] idx_less [OF j, of K "D + N"]
    show ?thesis by (simp add: r add_mult_distrib2)
  qed
  show ?thesis
  proof (cases "D \<le> K \<and> K < D + N")
    case True
    then have "S + (K - D) < C" using sn by arith
    then have ft: "E * (S + (K - D)) + E \<le> length b"
      using scale_fit [of "S + (K - D)" C E] len by simp
    have "take E (drop (E * K) r) = take E (drop (E * (S + (K - D))) b)"
    proof (rule cells_eqI)
      show "E * K + E \<le> length r" using fk lr by simp
      show "E * (S + (K - D)) + E \<le> length b" by (rule ft)
      fix j assume j: "j < E"
      from True have le: "E * D \<le> E * K" by (intro mult_le_mono2) simp
      have eq: "E * (S + (K - D)) = E * S + (E * K - E * D)"
        by (simp add: add_mult_distrib2 diff_mult_distrib2)
      from le have "E * S + (E * K + j - E * D) = E * (S + (K - D)) + j"
        unfolding eq by linarith
      with nth [OF j] True show "r ! (E * K + j) = b ! (E * (S + (K - D)) + j)" by simp
    qed
    with True show ?thesis by (simp only: if_True simp_thms)
  next
    case False
    have "take E (drop (E * K) r) = take E (drop (E * K) b)"
    proof (rule cells_eqI)
      show "E * K + E \<le> length r" using fk lr by simp
      show "E * K + E \<le> length b" by (rule fk)
      fix j assume j: "j < E"
      with nth [OF j] False show "r ! (E * K + j) = b ! (E * K + j)" by simp
    qed
    with False show ?thesis by (simp only: if_False simp_thms)
  qed
qed

lemma put_cells_nat:
  assumes len: "length b = E * C" and dn: "D + N \<le> C" and k: "K < C"
    and lv: "length v = E * N"
    and r: "r = take (E * D) b @ v @ drop (E * D + E * N) b"
  shows "take E (drop (E * K) r) =
         (if D \<le> K \<and> K < D + N then take E (drop (E * (K - D)) v)
          else take E (drop (E * K) b))"
proof -
  have bd: "E * D + length v \<le> length b"
    using scale_sum [OF dn, of E] len lv by simp
  have lr: "length r = length b" using bd by (simp add: r lv)
  have fk: "E * K + E \<le> length b" using scale_fit [OF k, of E] len by simp
  have nth: "r ! (E * K + j) =
      (if D \<le> K \<and> K < D + N then v ! (E * K + j - E * D) else b ! (E * K + j))"
    if j: "j < E" for j
  proof -
    from j fk have "E * K + j < length b" by simp
    from put_nth [OF bd this] idx_le [OF j, of D K] idx_less [OF j, of K "D + N"]
    show ?thesis by (simp add: r lv add_mult_distrib2)
  qed
  show ?thesis
  proof (cases "D \<le> K \<and> K < D + N")
    case True
    then have "K - D < N" by arith
    then have ft: "E * (K - D) + E \<le> length v"
      using scale_fit [of "K - D" N E] lv by simp
    have "take E (drop (E * K) r) = take E (drop (E * (K - D)) v)"
    proof (rule cells_eqI)
      show "E * K + E \<le> length r" using fk lr by simp
      show "E * (K - D) + E \<le> length v" by (rule ft)
      fix j assume j: "j < E"
      from True have le: "E * D \<le> E * K" by (intro mult_le_mono2) simp
      have eq: "E * (K - D) = E * K - E * D"
        by (simp add: diff_mult_distrib2)
      from le have "E * K + j - E * D = E * (K - D) + j"
        unfolding eq by linarith
      with nth [OF j] True show "r ! (E * K + j) = v ! (E * (K - D) + j)" by simp
    qed
    with True show ?thesis by (simp only: if_True simp_thms)
  next
    case False
    have "take E (drop (E * K) r) = take E (drop (E * K) b)"
    proof (rule cells_eqI)
      show "E * K + E \<le> length r" using fk lr by simp
      show "E * K + E \<le> length b" by (rule fk)
      fix j assume j: "j < E"
      with nth [OF j] False show "r ! (E * K + j) = b ! (E * K + j)" by simp
    qed
    with False show ?thesis by (simp only: if_False simp_thms)
  qed
qed

lemma grow_cells_nat:
  assumes len: "length b = E * C" and k: "K < C" "K < C'"
    and r: "r = take (E * C') b @ map junk [length b ..< E * C']"
  shows "take E (drop (E * K) r) = take E (drop (E * K) b)" and "length r = E * C'"
proof -
  show lr: "length r = E * C'" by (auto simp: r min_def)
  have fk: "E * K + E \<le> length b" using scale_fit [OF k(1), of E] len by simp
  have fk': "E * K + E \<le> E * C'" using scale_fit [OF k(2), of E] by simp
  show "take E (drop (E * K) r) = take E (drop (E * K) b)"
  proof (rule cells_eqI)
    show "E * K + E \<le> length r" using fk' lr by simp
    show "E * K + E \<le> length b" by (rule fk)
    fix j assume j: "j < E"
    with fk fk' show "r ! (E * K + j) = b ! (E * K + j)"
      by (simp add: r nth_append)
  qed
qed

section \<open>The memory primitives, cell by cell\<close>

lemma block_length: "block e c b \<Longrightarrow> length b = nat e * nat c"
  by (simp add: block_def length_nat)

lemma block_same_length: "block e c b \<Longrightarrow> length r = length b \<Longrightarrow> block e c r"
  by (simp add: block_def)

lemma in_range_cells:
  assumes "block e c b" "0 \<le> k" "0 \<le> m" "k + m \<le> c"
  shows "in_range b (e * k) (e * m)"
proof -
  from assms have "e * (k + m) \<le> e * c"
    by (intro mult_left_mono) (simp_all add: block_def)
  with assms show ?thesis
    by (simp add: in_range_def block_def distrib_left)
qed

lemma load_cell:
  assumes "block e c b" "0 \<le> k" "k < c"
  shows "load b (e * k) e = Inr (cell e b k)"
  using in_range_cells [OF assms(1,2), of 1] assms(3)
  by (simp add: load_def cell_def)

lemma nat_scaled: "0 \<le> e \<Longrightarrow> nat (e * k) = nat e * nat k"
  by (rule nat_mult_distrib)

lemma nat_scaled_sum:
  assumes "0 \<le> e" "0 \<le> d" "0 \<le> n"
  shows "nat (e * d + e * n) = nat e * nat d + nat e * nat n"
proof -
  from assms have "nat (e * d + e * n) = nat (e * d) + nat (e * n)"
    by (intro nat_add_distrib) simp_all
  with assms(1) show ?thesis by (simp add: nat_mult_distrib)
qed

lemma memmove_cells:
  assumes blk: "block e c b" and nn: "0 \<le> d" "0 \<le> s" "0 \<le> n"
    and dn: "d + n \<le> c" and sn: "s + n \<le> c"
  obtains r where "memmove_b b (e * d) (e * s) (e * n) = Inr r" "block e c r"
    "\<And>k. 0 \<le> k \<Longrightarrow> k < c \<Longrightarrow>
       cell e r k = (if d \<le> k \<and> k < d + n then cell e b (s + (k - d)) else cell e b k)"
proof -
  let ?r = "take (nat e * nat d) b @ take (nat e * nat n) (drop (nat e * nat s) b) @
            drop (nat e * nat d + nat e * nat n) b"
  from blk have e: "0 \<le> e" by (simp add: block_def)
  have len: "length b = nat e * nat c" by (rule block_length [OF blk])
  have dn': "nat d + nat n \<le> nat c" and sn': "nat s + nat n \<le> nat c"
    using nn dn sn by simp_all
  have "in_range b (e * d) (e * n)" "in_range b (e * s) (e * n)"
    using blk nn dn sn by (simp_all add: in_range_cells)
  then have "memmove_b b (e * d) (e * s) (e * n) =
      Inr (take (nat (e * d)) b @ take (nat (e * n)) (drop (nat (e * s)) b) @
           drop (nat (e * d + e * n)) b)"
    by (simp add: memmove_b_def)
  then have 1: "memmove_b b (e * d) (e * s) (e * n) = Inr ?r"
    by (simp only: nat_scaled [OF e] nat_scaled_sum [OF e nn(1) nn(3)])
  have 2: "block e c ?r"
    by (rule block_same_length [OF blk move_length_nat [OF len dn' sn']])
  have 3: "cell e ?r k =
      (if d \<le> k \<and> k < d + n then cell e b (s + (k - d)) else cell e b k)"
    if k: "0 \<le> k" "k < c" for k
  proof -
    from k have k': "nat k < nat c" by simp
    note mv = move_cells_nat [OF len dn' sn' k' refl]
    show ?thesis
    proof (cases "d \<le> k \<and> k < d + n")
      case True
      with nn k have c1: "nat d \<le> nat k \<and> nat k < nat d + nat n" by auto
      from True nn k have c2: "nat (s + (k - d)) = nat s + (nat k - nat d)" by arith
      from True nn have c3: "0 \<le> s + (k - d)" by arith
      have "cell e ?r k = take (nat e) (drop (nat e * (nat s + (nat k - nat d))) b)"
        unfolding cell_nat [OF e k(1)] mv using c1 by (simp only: if_True simp_thms)
      also have "\<dots> = cell e b (s + (k - d))"
        unfolding cell_nat [OF e c3] c2 ..
      finally show ?thesis using True by (simp only: if_True simp_thms)
    next
      case False
      with nn k have c1: "\<not> (nat d \<le> nat k \<and> nat k < nat d + nat n)" by auto
      have "cell e ?r k = take (nat e) (drop (nat e * nat k) b)"
        unfolding cell_nat [OF e k(1)] mv using c1 by (simp only: if_False simp_thms)
      also have "\<dots> = cell e b k"
        unfolding cell_nat [OF e k(1)] ..
      finally show ?thesis using False by (simp only: if_False simp_thms)
    qed
  qed
  from 1 2 3 show ?thesis by (rule that)
qed

lemma put_cells:
  assumes blk: "block e c b" and nn: "0 \<le> d" "0 \<le> n" and dn: "d + n \<le> c"
    and lv: "length v = nat e * nat n"
    and r: "r = take (nat (e * d)) b @ v @ drop (nat (e * d) + length v) b"
  shows "block e c r"
    and "\<And>k. 0 \<le> k \<Longrightarrow> k < c \<Longrightarrow>
       cell e r k = (if d \<le> k \<and> k < d + n then take (nat e) (drop (nat e * nat (k - d)) v)
                     else cell e b k)"
proof -
  let ?r = "take (nat e * nat d) b @ v @ drop (nat e * nat d + nat e * nat n) b"
  from blk have e: "0 \<le> e" by (simp add: block_def)
  have len: "length b = nat e * nat c" by (rule block_length [OF blk])
  have dn': "nat d + nat n \<le> nat c" using nn dn by simp
  have r': "r = ?r" unfolding r nat_scaled [OF e] lv ..
  show "block e c r"
    unfolding r'
    by (rule block_same_length [OF blk put_length_nat [OF len dn' lv]])
  fix k :: int assume k: "0 \<le> k" "k < c"
  from k have k': "nat k < nat c" by simp
  note pt = put_cells_nat [OF len dn' k' lv refl]
  show "cell e r k = (if d \<le> k \<and> k < d + n then take (nat e) (drop (nat e * nat (k - d)) v)
                     else cell e b k)"
  proof (cases "d \<le> k \<and> k < d + n")
    case True
    with nn k have c1: "nat d \<le> nat k \<and> nat k < nat d + nat n" by auto
    from True nn k have c2: "nat (k - d) = nat k - nat d" by arith
    have "cell e r k = take (nat e) (drop (nat e * (nat k - nat d)) v)"
      unfolding r' cell_nat [OF e k(1)] pt using c1 by (simp only: if_True simp_thms)
    then show ?thesis using True unfolding c2 by (simp only: if_True simp_thms)
  next
    case False
    with nn k have c1: "\<not> (nat d \<le> nat k \<and> nat k < nat d + nat n)" by auto
    have "cell e r k = take (nat e) (drop (nat e * nat k) b)"
      unfolding r' cell_nat [OF e k(1)] pt using c1 by (simp only: if_False simp_thms)
    also have "\<dots> = cell e b k"
      unfolding cell_nat [OF e k(1)] ..
    finally show ?thesis using False by (simp only: if_False simp_thms)
  qed
qed

lemma store_cell:
  assumes blk: "block e c b" and p: "0 \<le> p" "p < c" and lv: "int (length v) = e"
  obtains r where "store b (e * p) v = Inr r" "block e c r"
    "\<And>k. 0 \<le> k \<Longrightarrow> k < c \<Longrightarrow> cell e r k = (if k = p then v else cell e b k)"
proof -
  let ?r = "take (nat (e * p)) b @ v @ drop (nat (e * p) + length v) b"
  have lv': "length v = nat e * nat 1" using lv by simp
  have p1: "p + 1 \<le> c" using p by simp
  have "in_range b (e * p) (e * 1)"
    by (rule in_range_cells [OF blk p(1) _ p1]) simp
  then have 1: "store b (e * p) v = Inr ?r"
    using lv by (simp add: store_def)
  note pc = put_cells [OF blk p(1) _ p1 lv' refl]
  have 2: "block e c ?r" by (rule pc(1)) simp
  have 3: "cell e ?r k = (if k = p then v else cell e b k)" if k: "0 \<le> k" "k < c" for k
  proof -
    have "cell e ?r k = (if p \<le> k \<and> k < p + 1 then take (nat e) (drop (nat e * nat (k - p)) v)
                     else cell e b k)"
      by (rule pc(2) [OF _ k]) simp
    moreover have "(p \<le> k \<and> k < p + 1) = (k = p)" by auto
    ultimately show ?thesis using lv by auto
  qed
  from 1 2 3 show ?thesis by (rule that)
qed

lemma memset_cells:
  assumes blk: "block e c b" and nn: "0 \<le> d" "0 \<le> n" and dn: "d + n \<le> c"
  obtains r where "memset_b b (e * d) x (e * n) = Inr r" "block e c r"
    "\<And>k. 0 \<le> k \<Longrightarrow> k < c \<Longrightarrow>
       cell e r k = (if d \<le> k \<and> k < d + n then replicate (nat e) x else cell e b k)"
proof -
  let ?v = "replicate (nat e * nat n) x"
  let ?r = "take (nat (e * d)) b @ ?v @ drop (nat (e * d) + length ?v) b"
  from blk have e: "0 \<le> e" by (simp add: block_def)
  have lv: "length ?v = nat e * nat n" by simp
  have "in_range b (e * d) (e * n)"
    by (rule in_range_cells [OF blk nn dn])
  then have "memset_b b (e * d) x (e * n) =
      Inr (take (nat (e * d)) b @ replicate (nat (e * n)) x @ drop (nat (e * d + e * n)) b)"
    by (simp add: memset_b_def distrib_left)
  then have 1: "memset_b b (e * d) x (e * n) = Inr ?r"
    by (simp only: nat_scaled [OF e] nat_scaled_sum [OF e nn] length_replicate)
  note pc = put_cells [OF blk nn dn lv refl]
  have 2: "block e c ?r" by (rule pc(1))
  have 3: "cell e ?r k = (if d \<le> k \<and> k < d + n then replicate (nat e) x else cell e b k)"
    if k: "0 \<le> k" "k < c" for k
  proof (cases "d \<le> k \<and> k < d + n")
    case True
    with nn k have "nat (k - d) < nat n" by auto
    from scale_fit [OF this, of "nat e"]
    have "nat e \<le> nat e * nat n - nat e * nat (k - d)" by arith
    then have "take (nat e) (drop (nat e * nat (k - d)) ?v) = replicate (nat e) x"
      by (simp add: min_absorb2)
    with pc(2) [OF k] True show ?thesis by (simp only: if_True simp_thms)
  next
    case False
    with pc(2) [OF k] show ?thesis by (simp only: if_False simp_thms)
  qed
  from 1 2 3 show ?thesis by (rule that)
qed

lemma realloc_cells:
  assumes blk: "block e c b" and c': "0 \<le> c'" and ok: "ra (hdr + e * c') = Some junk"
  obtains r where "DYNARR_REALLOC ra b (hdr + e * c') = Some r" "block e c' r"
    "\<And>k. 0 \<le> k \<Longrightarrow> k < c \<Longrightarrow> k < c' \<Longrightarrow> cell e r k = cell e b k"
proof -
  let ?r = "take (nat e * nat c') b @ map junk [length b ..< nat e * nat c']"
  from blk have e: "0 \<le> e" and e0: "0 < e" by (simp_all add: block_def)
  have len: "length b = nat e * nat c" by (rule block_length [OF blk])
  have "DYNARR_REALLOC ra b (hdr + e * c') =
      Some (take (nat (e * c')) b @ map junk [length b ..< nat (e * c')])"
    using ok by (simp add: DYNARR_REALLOC_def)
  then have 1: "DYNARR_REALLOC ra b (hdr + e * c') = Some ?r"
    by (simp only: nat_scaled [OF e])
  have "length ?r = nat e * nat c'" by (auto simp: min_def)
  then have "int (length ?r) = e * c'"
    using e c' by (simp only: of_nat_mult int_nat_eq if_True)
  with e0 c' have 2: "block e c' ?r" by (simp only: block_def simp_thms)
  have 3: "cell e ?r k = cell e b k" if k: "0 \<le> k" "k < c" "k < c'" for k
  proof -
    from k have "nat k < nat c" "nat k < nat c'" by simp_all
    from grow_cells_nat(1) [OF len this refl] show ?thesis
      unfolding cell_nat [OF e k(1)] .
  qed
  from 1 2 3 show ?thesis by (rule that)
qed

lemma realloc_fails: "ra n = None \<Longrightarrow> DYNARR_REALLOC ra b n = None"
  by (simp add: DYNARR_REALLOC_def)

section \<open>Insertion sort on a list\<close>

lemma length_insert_down [simp]: "length (insert_down cmp xs i) = length xs"
  by (induction i arbitrary: xs) simp_all

lemma length_passes [simp]: "length (passes cmp xs j n) = length xs"
  by (induction n arbitrary: xs j) simp_all

lemma mset_insert_down: "i < length xs \<Longrightarrow> mset (insert_down cmp xs i) = mset xs"
proof (induction i arbitrary: xs)
  case 0
  then show ?case by simp
next
  case (Suc m)
  then have "mset (xs[Suc m := xs ! m, m := xs ! Suc m]) = mset xs"
    by (intro mset_swap) simp_all
  with Suc show ?case by simp
qed

lemma mset_passes: "j + n \<le> length xs \<Longrightarrow> mset (passes cmp xs j n) = mset xs"
proof (induction n arbitrary: xs j)
  case 0
  then show ?case by simp
next
  case (Suc n)
  then have "mset (passes cmp (insert_down cmp xs j) (Suc j) n) = mset (insert_down cmp xs j)"
    by (intro Suc.IH) simp
  with Suc.prems show ?case by (simp add: mset_insert_down)
qed

lemma swap_adjacent:
  assumes "Suc m < length xs"
  shows "xs = take m xs @ [xs ! m, xs ! Suc m] @ drop (Suc (Suc m)) xs"
    and "xs[Suc m := xs ! m, m := xs ! Suc m] =
         take m xs @ [xs ! Suc m, xs ! m] @ drop (Suc (Suc m)) xs"
proof -
  from assms have m: "m < length xs" by simp
  have "drop m xs = xs ! m # drop (Suc m) xs" using m by (simp add: Cons_nth_drop_Suc)
  also have "drop (Suc m) xs = xs ! Suc m # drop (Suc (Suc m)) xs"
    using assms by (simp add: Cons_nth_drop_Suc)
  finally have d: "drop m xs = [xs ! m, xs ! Suc m] @ drop (Suc (Suc m)) xs" by simp
  then show 1: "xs = take m xs @ [xs ! m, xs ! Suc m] @ drop (Suc (Suc m)) xs"
    by (metis append_take_drop_id)
  have lt: "length (take m xs) = m" using m by simp
  show "xs[Suc m := xs ! m, m := xs ! Suc m] =
         take m xs @ [xs ! Suc m, xs ! m] @ drop (Suc (Suc m)) xs"
    by (subst (1 2) 1) (simp add: list_update_append lt del: length_take)
qed

lemma filter_swap_adjacent:
  assumes "Suc m < length xs" "\<not> (P (xs ! m) \<and> P (xs ! Suc m))"
  shows "filter P (xs[Suc m := xs ! m, m := xs ! Suc m]) = filter P xs"
proof -
  from assms(2) have "filter P [xs ! Suc m, xs ! m] = filter P [xs ! m, xs ! Suc m]" by auto
  then have "filter P (take m xs @ [xs ! Suc m, xs ! m] @ drop (Suc (Suc m)) xs) =
             filter P (take m xs @ [xs ! m, xs ! Suc m] @ drop (Suc (Suc m)) xs)"
    by (simp only: filter_append)
  with swap_adjacent [OF assms(1)] show ?thesis by simp
qed

lemma consistent_order_equiv:
  assumes "consistent_order cmp" "cmp z x = 0" "cmp z y = 0"
  shows "cmp x y \<le> 0"
proof -
  from assms(1) have "(0 < cmp x z) = (cmp z x < 0)" by (simp add: consistent_order_def)
  with assms(2) have "cmp x z \<le> 0" by simp
  moreover from assms(3) have "cmp z y \<le> 0" by simp
  ultimately show ?thesis using assms(1) unfolding consistent_order_def by blast
qed

lemma filter_insert_down:
  assumes "consistent_order cmp" "i < length xs"
  shows "filter (\<lambda>w. cmp z w = 0) (insert_down cmp xs i) = filter (\<lambda>w. cmp z w = 0) xs"
  using assms(2)
proof (induction i arbitrary: xs)
  case 0
  then show ?case by simp
next
  case (Suc m)
  show ?case
  proof (cases "cmp (xs ! m) (xs ! Suc m) > 0")
    case False
    then show ?thesis by simp
  next
    case True
    let ?xs = "xs[Suc m := xs ! m, m := xs ! Suc m]"
    have "\<not> (cmp z (xs ! m) = 0 \<and> cmp z (xs ! Suc m) = 0)"
      using consistent_order_equiv [OF assms(1), of z "xs ! m" "xs ! Suc m"] True by auto
    then have "filter (\<lambda>w. cmp z w = 0) ?xs = filter (\<lambda>w. cmp z w = 0) xs"
      using Suc.prems by (intro filter_swap_adjacent) simp_all
    moreover have "filter (\<lambda>w. cmp z w = 0) (insert_down cmp ?xs m) = filter (\<lambda>w. cmp z w = 0) ?xs"
      using Suc.prems by (intro Suc.IH) simp
    ultimately show ?thesis using True by simp
  qed
qed

lemma filter_passes:
  assumes "consistent_order cmp" "j + n \<le> length xs"
  shows "filter (\<lambda>w. cmp z w = 0) (passes cmp xs j n) = filter (\<lambda>w. cmp z w = 0) xs"
  using assms(2)
proof (induction n arbitrary: xs j)
  case 0
  then show ?case by simp
next
  case (Suc n)
  then have "filter (\<lambda>w. cmp z w = 0) (passes cmp (insert_down cmp xs j) (Suc j) n) =
             filter (\<lambda>w. cmp z w = 0) (insert_down cmp xs j)"
    by (intro Suc.IH) simp
  with Suc.prems show ?case by (simp add: filter_insert_down [OF assms(1)])
qed

lemma insert_down_sorted:
  assumes anti: "\<And>x y. 0 < cmp x y \<Longrightarrow> cmp y x \<le> 0"
    and "i \<le> j" "j < length xs"
    and "\<And>p. Suc p \<le> j \<Longrightarrow> Suc p \<noteq> i \<Longrightarrow> cmp (xs ! p) (xs ! Suc p) \<le> 0"
    and "0 < i \<Longrightarrow> i < j \<Longrightarrow> cmp (xs ! (i - 1)) (xs ! Suc i) \<le> 0"
    and "Suc p \<le> j"
  shows "cmp (insert_down cmp xs i ! p) (insert_down cmp xs i ! Suc p) \<le> 0"
  using assms(2-)
proof (induction i arbitrary: xs)
  case 0
  then show ?case by simp
next
  case (Suc m)
  show ?case
  proof (cases "cmp (xs ! m) (xs ! Suc m) > 0")
    case False
    show ?thesis
    proof (cases "p = m")
      case True
      with False show ?thesis by simp
    next
      case ne: False
      with False Suc.prems(3) [of p] Suc.prems(5) show ?thesis by simp
    qed
  next
    case True
    let ?xs = "xs[Suc m := xs ! m, m := xs ! Suc m]"
    have m: "Suc m < length xs" "m < length xs" using Suc.prems(1,2) by simp_all
    have nth: "?xs ! q = (if q = m then xs ! Suc m else if q = Suc m then xs ! m else xs ! q)"
      if "q < length xs" for q
      using that m by (simp add: nth_list_update)
    have "cmp (insert_down cmp ?xs m ! p) (insert_down cmp ?xs m ! Suc p) \<le> 0"
    proof (rule Suc.IH)
      show "m \<le> j" using Suc.prems(1) by simp
      show "j < length ?xs" using Suc.prems(2) by simp
      show "Suc p \<le> j" by (rule Suc.prems(5))
      show "cmp (?xs ! q) (?xs ! Suc q) \<le> 0" if "Suc q \<le> j" "Suc q \<noteq> m" for q
      proof -
        from that Suc.prems(2) have q: "q < length xs" "Suc q < length xs" by simp_all
        consider "q = m" | "q = Suc m" | "q \<noteq> m" "q \<noteq> Suc m" by blast
        then show ?thesis
        proof cases
          case 1
          with nth [OF q(1)] nth [OF q(2)] anti [OF True] show ?thesis by simp
        next
          case 2
          with that Suc.prems(1) have "Suc m < j" by simp
          with Suc.prems(4) 2 nth [OF q(1)] nth [OF q(2)] show ?thesis by simp
        next
          case 3
          with that have "Suc q \<noteq> Suc m" "Suc q \<noteq> m" by simp_all
          with 3 nth [OF q(1)] nth [OF q(2)] Suc.prems(3) [OF that(1)] show ?thesis by simp
        qed
      qed
      show "cmp (?xs ! (m - 1)) (?xs ! Suc m) \<le> 0" if "0 < m" "m < j"
      proof -
        from that obtain q where q: "m = Suc q" by (cases m) simp_all
        with m have ql: "q < length xs" by simp
        from Suc.prems(3) [of q] q Suc.prems(1) have "cmp (xs ! q) (xs ! m) \<le> 0" by simp
        with q nth [OF ql] nth [OF m(1)] show ?thesis by simp
      qed
    qed
    with True show ?thesis by simp
  qed
qed

lemma adjacent_sorted_insert_down:
  assumes "consistent_order cmp" "j < length xs" "adjacent_sorted cmp (take j xs)"
  shows "adjacent_sorted cmp (take (Suc j) (insert_down cmp xs j))"
proof -
  have anti: "cmp y x \<le> 0" if "0 < cmp x y" for x y
    using assms(1) that unfolding consistent_order_def by (metis less_imp_le)
  have pre: "cmp (xs ! p) (xs ! Suc p) \<le> 0" if "Suc p \<le> j" "Suc p \<noteq> j" for p
  proof -
    from that have "Suc p < j" by simp
    with assms(2,3) show ?thesis by (auto simp: adjacent_sorted_def dest!: spec [of _ p])
  qed
  have "cmp (insert_down cmp xs j ! p) (insert_down cmp xs j ! Suc p) \<le> 0" if "Suc p \<le> j" for p
  proof (rule insert_down_sorted [where j = j])
    show "cmp y x \<le> 0" if "0 < cmp x y" for x y by (rule anti [OF that])
    show "j \<le> j" by simp
    show "j < length xs" by (rule assms(2))
    show "cmp (xs ! q) (xs ! Suc q) \<le> 0" if "Suc q \<le> j" "Suc q \<noteq> j" for q
      by (rule pre [OF that])
    show "cmp (xs ! (j - 1)) (xs ! Suc j) \<le> 0" if "0 < j" "j < j" using that by simp
    show "Suc p \<le> j" by (rule that)
  qed
  with assms(2) show ?thesis by (auto simp: adjacent_sorted_def)
qed

lemma adjacent_sorted_passes:
  assumes "consistent_order cmp" "j + n = length xs" "adjacent_sorted cmp (take j xs)"
  shows "adjacent_sorted cmp (passes cmp xs j n)"
  using assms(2,3)
proof (induction n arbitrary: xs j)
  case 0
  then show ?case by simp
next
  case (Suc n)
  from Suc.prems have j: "j < length xs" by simp
  have "adjacent_sorted cmp (passes cmp (insert_down cmp xs j) (Suc j) n)"
  proof (rule Suc.IH)
    show "Suc j + n = length (insert_down cmp xs j)" using Suc.prems(1) by simp
    show "adjacent_sorted cmp (take (Suc j) (insert_down cmp xs j))"
      by (rule adjacent_sorted_insert_down [OF assms(1) j Suc.prems(2)])
  qed
  then show ?case by simp
qed

section \<open>The operations on a well-formed array\<close>

lemma wf_block: "wf a \<Longrightarrow> block (elem a) (capa a) (buf a)"
  by (simp add: wf_def block_def)

lemma wfI:
  "block (elem a) (capa a) (buf a) \<Longrightarrow> 0 \<le> offs a \<Longrightarrow> 0 \<le> size_d a \<Longrightarrow>
   offs a + size_d a \<le> capa a \<Longrightarrow> wf a"
  by (simp add: wf_def block_def)

lemma wf_bounds:
  assumes "wf a"
  shows "0 < elem a" "0 \<le> offs a" "0 \<le> size_d a" "offs a + size_d a \<le> capa a" "0 \<le> capa a"
  using assms by (simp_all add: wf_def)

lemma element_cell: "element a i = cell (elem a) (buf a) (offs a + int i)"
  by (simp add: element_def cell_def DARR_EPTR_def)

lemma length_elems [simp]: "length (elems a) = nat (size_d a)"
  by (simp add: elems_def)

lemma nth_elems: "i < nat (size_d a) \<Longrightarrow> elems a ! i = element a i"
  by (simp add: elems_def)

lemma elems_eqI:
  assumes "size_d a' = size_d a"
    and "\<And>i. i < nat (size_d a) \<Longrightarrow> element a' i = element a i"
  shows "elems a' = elems a"
  using assms by (intro nth_equalityI) (simp_all add: nth_elems)

lemma load_element:
  assumes "wf a" "0 \<le> i" "i < size_d a"
  shows "load (buf a) (DARR_EPTR a i) (elem a) = Inr (element a (nat i))"
proof -
  from assms have "load (buf a) (elem a * (offs a + i)) (elem a) =
      Inr (cell (elem a) (buf a) (offs a + i))"
    by (intro load_cell [OF wf_block]) (simp_all add: wf_def)
  with assms(2) show ?thesis by (simp add: DARR_EPTR_def element_cell)
qed

lemma length_element:
  assumes "wf a" "i < nat (size_d a)"
  shows "length (element a i) = nat (elem a)"
proof -
  note bs = wf_bounds [OF assms(1)]
  from bs assms(2) have "offs a + int i < capa a" by linarith
  with bs show ?thesis
    unfolding element_cell
    by (intro length_cell [OF _ _ _ wf_block [OF assms(1), unfolded block_def, THEN conjunct2, THEN conjunct2]]) simp_all
qed

lemma realloc_keeps:
  assumes "DYNARR_REALLOC ra b n = Some r" "length b \<le> nat (n - hdr)"
  shows "take (length b) r = b"
  using assms by (auto simp: DYNARR_REALLOC_def split: option.splits)

subsection \<open>\<^verbatim>\<open>dynarrGrow\<close>\<close>

lemma fits_nonneg: "0 \<le> x \<Longrightarrow> fits x \<longleftrightarrow> x \<le> INT_MAX"
  by (simp add: fits_def INT_MIN_def)

lemma fits_below: "0 \<le> x \<Longrightarrow> x \<le> y \<Longrightarrow> fits y \<Longrightarrow> fits x"
  by (simp add: fits_def INT_MIN_def)

lemma fits_double:
  assumes wf: "wf a" and le: "elem a * capa a * 2 \<le> INT_MAX"
  shows "fits (elem a * capa a)" "fits (elem a * capa a * 2)" "fits (capa a * 2)"
proof -
  note bs = wf_bounds [OF wf]
  from bs have p: "0 \<le> elem a * capa a" by simp
  from bs have "1 * capa a \<le> elem a * capa a" by (intro mult_right_mono) simp_all
  then have c: "capa a * 2 \<le> elem a * capa a * 2" by simp
  from p le show 2: "fits (elem a * capa a * 2)" by (simp add: fits_nonneg)
  have "x \<le> x * 2" if "0 \<le> x" for x :: int using that by simp
  from fits_below [OF p this [OF p] 2] show "fits (elem a * capa a)" .
  from bs have "0 \<le> capa a * 2" by simp
  from fits_below [OF this c 2] show "fits (capa a * 2)" .
qed

lemma dynarrGrow_cases:
  assumes wf: "wf a"
  obtains
    (room) "offs a + size_d a < capa a" "dynarrGrow ra a = Inr (0, a)"
  | (compact) b where "offs a + size_d a = capa a" "size_d a \<le> offs a"
      "dynarrGrow ra a = Inr (0, a\<lparr>buf := b, offs := 0\<rparr>)"
      "block (elem a) (capa a) b"
      "\<And>k. 0 \<le> k \<Longrightarrow> k < size_d a \<Longrightarrow> cell (elem a) b k = cell (elem a) (buf a) (offs a + k)"
  | (overflow) "offs a + size_d a = capa a" "offs a < size_d a"
      "INT_MAX < elem a * capa a * 2" "dynarrGrow ra a = Inl Overflow"
  | (fail) "offs a + size_d a = capa a" "offs a < size_d a"
      "ra (hdr + elem a * capa a * 2) = None" "dynarrGrow ra a = Inr (- 1, a)"
      "elem a * capa a * 2 \<le> INT_MAX"
  | (double) junk b where "offs a + size_d a = capa a" "offs a < size_d a"
      "ra (hdr + elem a * capa a * 2) = Some junk"
      "dynarrGrow ra a = Inr (0, a\<lparr>buf := b, capa := capa a * 2\<rparr>)"
      "block (elem a) (capa a * 2) b"
      "\<And>k. 0 \<le> k \<Longrightarrow> k < capa a \<Longrightarrow> cell (elem a) b k = cell (elem a) (buf a) k"
      "take (length (buf a)) b = buf a"
      "elem a * capa a * 2 \<le> INT_MAX"
proof -
  note blk = wf_block [OF wf] and bs = wf_bounds [OF wf]
  consider "offs a + size_d a < capa a"
    | "offs a + size_d a = capa a" "size_d a \<le> offs a"
    | "offs a + size_d a = capa a" "offs a < size_d a" "elem a * capa a * 2 \<le> INT_MAX"
    | "offs a + size_d a = capa a" "offs a < size_d a" "INT_MAX < elem a * capa a * 2"
    using bs(4) by linarith
  then show thesis
  proof cases
    case 1
    then show thesis by (intro room) (simp_all add: dynarrGrow_def)
  next
    case 4
    then have "\<not> fits (elem a * capa a * 2)" by (simp add: fits_def)
    with 4 show thesis by (intro overflow) (simp_all add: dynarrGrow_def)
  next
    case 2
    from bs 2 have le: "elem a * size_d a \<le> elem a * offs a"
      by (intro mult_left_mono) simp_all
    from memmove_cells [OF blk, of 0 "offs a" "size_d a"] bs 2
    obtain r where r: "memmove_b (buf a) (elem a * 0) (elem a * offs a) (elem a * size_d a) = Inr r"
        "block (elem a) (capa a) r"
        "\<And>k. 0 \<le> k \<Longrightarrow> k < capa a \<Longrightarrow> cell (elem a) r k =
           (if 0 \<le> k \<and> k < 0 + size_d a then cell (elem a) (buf a) (offs a + (k - 0))
            else cell (elem a) (buf a) k)"
      by auto
    from r(1) le have g: "dynarrGrow ra a = Inr (0, a\<lparr>buf := r, offs := 0\<rparr>)"
      using 2 by (simp add: dynarrGrow_def memcpy_b_def DARR_EPTR_def)
    have "cell (elem a) r k = cell (elem a) (buf a) (offs a + k)"
      if "0 \<le> k" "k < size_d a" for k
      using r(3) [of k] that bs 2 by simp
    with 2 g r(2) show thesis by (intro compact)
  next
    case 3
    note f = fits_double [OF wf 3(3)]
    show thesis
    proof (cases "ra (hdr + elem a * capa a * 2)")
      case None
      with 3 f show thesis
        by (intro fail) (simp_all add: dynarrGrow_def realloc_fails)
    next
      case (Some junk)
      then have ok: "ra (hdr + elem a * (capa a * 2)) = Some junk" by (simp add: mult.assoc)
      from realloc_cells [of "elem a" "capa a" "buf a" "capa a * 2" ra junk] blk ok bs
      obtain r where r: "DYNARR_REALLOC ra (buf a) (hdr + elem a * (capa a * 2)) = Some r"
          "block (elem a) (capa a * 2) r"
          "\<And>k. 0 \<le> k \<Longrightarrow> k < capa a \<Longrightarrow> k < capa a * 2 \<Longrightarrow>
             cell (elem a) r k = cell (elem a) (buf a) k"
        by auto
      from r(1) 3 f have g: "dynarrGrow ra a = Inr (0, a\<lparr>buf := r, capa := capa a * 2\<rparr>)"
        by (simp add: dynarrGrow_def mult.assoc)
      have "cell (elem a) r k = cell (elem a) (buf a) k" if "0 \<le> k" "k < capa a" for k
        using r(3) [of k] that by simp
      moreover have "take (length (buf a)) r = buf a"
      proof (rule realloc_keeps [OF r(1)])
        from blk bs have "int (length (buf a)) \<le> elem a * (capa a * 2)"
          by (simp add: block_def)
        then show "length (buf a) \<le> nat (hdr + elem a * (capa a * 2) - hdr)" by simp
      qed
      ultimately show thesis using 3 Some g r(2) by (intro double)
    qed
  qed
qed

subsection \<open>\<^verbatim>\<open>dynarrResize\<close> and \<^verbatim>\<open>dynarrCapacity\<close>\<close>

lemma reset_offset_ok:
  assumes wf: "wf a"
  obtains a1 where "reset_offset a = Inr a1" "wf a1" "offs a1 = 0"
    "size_d a1 = size_d a" "capa a1 = capa a" "elem a1 = elem a"
    "\<And>i. i < nat (size_d a) \<Longrightarrow> element a1 i = element a i"
proof (cases "offs a = 0")
  case True
  with wf show thesis by (intro that [of a]) (simp_all add: reset_offset_def)
next
  case False
  note blk = wf_block [OF wf] and bs = wf_bounds [OF wf]
  from memmove_cells [OF blk, of 0 "offs a" "size_d a"] bs
  obtain r where r: "memmove_b (buf a) (elem a * 0) (elem a * offs a) (elem a * size_d a) = Inr r"
      "block (elem a) (capa a) r"
      "\<And>k. 0 \<le> k \<Longrightarrow> k < capa a \<Longrightarrow> cell (elem a) r k =
         (if 0 \<le> k \<and> k < 0 + size_d a then cell (elem a) (buf a) (offs a + (k - 0))
          else cell (elem a) (buf a) k)"
    by auto
  let ?a1 = "a\<lparr>buf := r, offs := 0\<rparr>"
  from r(1) False have 1: "reset_offset a = Inr ?a1"
    by (simp add: reset_offset_def DARR_EPTR_def)
  have 2: "wf ?a1" using r(2) bs by (intro wfI) simp_all
  have 3: "element ?a1 i = element a i" if "i < nat (size_d a)" for i
  proof -
    from that have "int i < size_d a" by (simp add: zless_nat_eq_int_zless)
    with r(3) [of "int i"] bs show ?thesis by (simp add: element_cell)
  qed
  from 1 2 3 show thesis by (intro that [of ?a1]) simp_all
qed

lemma fits_scaled:
  assumes "0 < e" "0 \<le> x" "x \<le> y" "e * y \<le> INT_MAX"
  shows "fits x" "fits (e * x)"
proof -
  from assms have le: "e * x \<le> e * y" by (intro mult_left_mono) simp_all
  from assms have "1 * x \<le> e * x" by (intro mult_right_mono) simp_all
  then have x: "x \<le> e * x" by simp
  from assms have p: "0 \<le> e * x" by simp
  from p le assms(4) show "fits (e * x)" by (simp add: fits_nonneg)
  from assms(2) x le assms(4) show "fits x" by (simp add: fits_nonneg)
qed

lemma zero_new_elements_ok:
  assumes wf: "wf a" and s: "size_d a \<le> s" "offs a + s \<le> capa a"
    and nov: "elem a * s \<le> INT_MAX"
  obtains b where "zero_new_elements a s = Inr (s, a\<lparr>buf := b, size_d := s\<rparr>)"
    "wf (a\<lparr>buf := b, size_d := s\<rparr>)"
    "\<And>i. i < nat (size_d a) \<Longrightarrow> element (a\<lparr>buf := b, size_d := s\<rparr>) i = element a i"
    "\<And>i. nat (size_d a) \<le> i \<Longrightarrow> i < nat s \<Longrightarrow>
       element (a\<lparr>buf := b, size_d := s\<rparr>) i = replicate (nat (elem a)) 0"
proof -
  note blk = wf_block [OF wf] and bs = wf_bounds [OF wf]
  from memset_cells [OF blk, of "offs a + size_d a" "s - size_d a" 0] bs s
  obtain r where r:
      "memset_b (buf a) (elem a * (offs a + size_d a)) 0 (elem a * (s - size_d a)) = Inr r"
      "block (elem a) (capa a) r"
      "\<And>k. 0 \<le> k \<Longrightarrow> k < capa a \<Longrightarrow> cell (elem a) r k =
         (if offs a + size_d a \<le> k \<and> k < offs a + size_d a + (s - size_d a)
          then replicate (nat (elem a)) 0 else cell (elem a) (buf a) k)"
    by auto
  let ?a1 = "a\<lparr>buf := r, size_d := s\<rparr>"
  have "fits (s - size_d a)" "fits (elem a * (s - size_d a))"
    using fits_scaled [of "elem a" "s - size_d a" s] bs s nov by simp_all
  with r(1) have 1: "zero_new_elements a s = Inr (s, ?a1)"
    by (simp add: zero_new_elements_def DARR_EPTR_def)
  have 2: "wf ?a1" using r(2) bs s by (intro wfI) simp_all
  have 3: "element ?a1 i = element a i" if "i < nat (size_d a)" for i
  proof -
    from that have "int i < size_d a" by (simp add: zless_nat_eq_int_zless)
    with r(3) [of "offs a + int i"] bs s show ?thesis by (simp add: element_cell)
  qed
  have 4: "element ?a1 i = replicate (nat (elem a)) 0" if "nat (size_d a) \<le> i" "i < nat s" for i
  proof -
    from that have "size_d a \<le> int i" "int i < s"
      by (simp_all add: zless_nat_eq_int_zless nat_le_iff)
    with r(3) [of "offs a + int i"] bs s show ?thesis by (simp add: element_cell)
  qed
  from 1 2 3 4 show thesis by (rule that)
qed

lemma dynarrResize_grow:
  assumes wf: "wf a" and s: "size_d a < s"
    and nov: "offs a + s \<le> INT_MAX" "elem a * s \<le> INT_MAX"
  obtains
    (fail) a1 where "capa a < s" "ra (hdr + elem a * s) = None"
      "dynarrResize ra a s = Inr (- 1, a1)"
      "wf a1" "offs a1 = 0" "size_d a1 = size_d a" "capa a1 = capa a" "elem a1 = elem a"
      "\<And>i. i < nat (size_d a) \<Longrightarrow> element a1 i = element a i"
  | (ok) a2 where "s \<le> capa a \<or> ra (hdr + elem a * s) \<noteq> None"
      "dynarrResize ra a s = Inr (s, a2)"
      "wf a2" "size_d a2 = s" "elem a2 = elem a"
      "offs a2 = (if offs a + s > capa a then 0 else offs a)"
      "capa a2 = (if s > capa a then s else capa a)"
      "\<And>i. i < nat (size_d a) \<Longrightarrow> element a2 i = element a i"
      "\<And>i. nat (size_d a) \<le> i \<Longrightarrow> i < nat s \<Longrightarrow> element a2 i = replicate (nat (elem a)) 0"
proof (cases "offs a + s > capa a")
  case False
  note bs = wf_bounds [OF wf]
  with False s have le: "offs a + s \<le> capa a" "size_d a \<le> s" "s \<le> capa a"
    by simp_all
  from bs s nov(1) have fo: "fits (offs a + s)" by (simp add: fits_nonneg)
  from bs s nov(2) have fe: "fits (elem a * s)" by (simp add: fits_nonneg)
  from zero_new_elements_ok [OF wf le(2,1) nov(2)]
  obtain b where b: "zero_new_elements a s = Inr (s, a\<lparr>buf := b, size_d := s\<rparr>)"
    "wf (a\<lparr>buf := b, size_d := s\<rparr>)"
    "\<And>i. i < nat (size_d a) \<Longrightarrow> element (a\<lparr>buf := b, size_d := s\<rparr>) i = element a i"
    "\<And>i. nat (size_d a) \<le> i \<Longrightarrow> i < nat s \<Longrightarrow>
       element (a\<lparr>buf := b, size_d := s\<rparr>) i = replicate (nat (elem a)) 0"
    by blast
  from b(1) s False fo have "dynarrResize ra a s = Inr (s, a\<lparr>buf := b, size_d := s\<rparr>)"
    by (simp add: dynarrResize_def)
  with le b(2-4) False show thesis
    by (intro ok [of "a\<lparr>buf := b, size_d := s\<rparr>"]) simp_all
next
  case True
  note bs = wf_bounds [OF wf]
  from bs s nov(1) have fo: "fits (offs a + s)" by (simp add: fits_nonneg)
  from bs s nov(2) have fe: "fits (elem a * s)" by (simp add: fits_nonneg)
  from reset_offset_ok [OF wf]
  obtain a1 where a1: "reset_offset a = Inr a1" "wf a1" "offs a1 = 0"
    "size_d a1 = size_d a" "capa a1 = capa a" "elem a1 = elem a"
    "\<And>i. i < nat (size_d a) \<Longrightarrow> element a1 i = element a i"
    by blast
  note bs1 = wf_bounds [OF a1(2)]
  from nov(2) a1(6) have nov1: "elem a1 * s \<le> INT_MAX" by simp
  show thesis
  proof (cases "s > capa a")
    case False
    with s a1 have le: "size_d a1 \<le> s" "offs a1 + s \<le> capa a1" by simp_all
    from zero_new_elements_ok [OF a1(2) le nov1]
    obtain b where b: "zero_new_elements a1 s = Inr (s, a1\<lparr>buf := b, size_d := s\<rparr>)"
      "wf (a1\<lparr>buf := b, size_d := s\<rparr>)"
      "\<And>i. i < nat (size_d a1) \<Longrightarrow> element (a1\<lparr>buf := b, size_d := s\<rparr>) i = element a1 i"
      "\<And>i. nat (size_d a1) \<le> i \<Longrightarrow> i < nat s \<Longrightarrow>
         element (a1\<lparr>buf := b, size_d := s\<rparr>) i = replicate (nat (elem a1)) 0"
      by blast
    from b(1) a1(1,5) s True False fo
    have "dynarrResize ra a s = Inr (s, a1\<lparr>buf := b, size_d := s\<rparr>)"
      by (simp add: dynarrResize_def)
    with False True b(2-4) a1(3-7) show thesis
      by (intro ok [of "a1\<lparr>buf := b, size_d := s\<rparr>"]) simp_all
  next
    case big: True
    show thesis
    proof (cases "ra (hdr + elem a * s)")
      case None
      with a1(1,5,6) s True big fo fe have "dynarrResize ra a s = Inr (- 1, a1)"
        by (simp add: dynarrResize_def realloc_fails)
      with big None a1(2-7) show thesis by (intro fail [of a1])
    next
      case (Some junk)
      from realloc_cells [of "elem a1" "capa a1" "buf a1" s ra junk] wf_block [OF a1(2)]
        Some a1(6) bs1 big a1(5)
      obtain r where r: "DYNARR_REALLOC ra (buf a1) (hdr + elem a1 * s) = Some r"
          "block (elem a1) s r"
          "\<And>k. 0 \<le> k \<Longrightarrow> k < capa a1 \<Longrightarrow> k < s \<Longrightarrow>
             cell (elem a1) r k = cell (elem a1) (buf a1) k"
        by auto
      let ?a2 = "a1\<lparr>buf := r, capa := s\<rparr>"
      have wf2: "wf ?a2" using r(2) bs1 a1(3,4) s by (intro wfI) simp_all
      have el2: "element ?a2 i = element a i" if "i < nat (size_d a)" for i
      proof -
        from that have "int i < size_d a" by (simp add: zless_nat_eq_int_zless)
        with r(3) [of "int i"] bs1 a1(3,4,5) a1(7) [OF that] big show ?thesis
          by (simp add: element_cell)
      qed
      have le: "size_d ?a2 \<le> s" "offs ?a2 + s \<le> capa ?a2" using a1(3,4) s by simp_all
      have nov2: "elem ?a2 * s \<le> INT_MAX" using nov1 by simp
      from zero_new_elements_ok [OF wf2 le nov2]
      obtain b where b: "zero_new_elements ?a2 s = Inr (s, ?a2\<lparr>buf := b, size_d := s\<rparr>)"
        "wf (?a2\<lparr>buf := b, size_d := s\<rparr>)"
        "\<And>i. i < nat (size_d ?a2) \<Longrightarrow> element (?a2\<lparr>buf := b, size_d := s\<rparr>) i = element ?a2 i"
        "\<And>i. nat (size_d ?a2) \<le> i \<Longrightarrow> i < nat s \<Longrightarrow>
           element (?a2\<lparr>buf := b, size_d := s\<rparr>) i = replicate (nat (elem ?a2)) 0"
        by blast
      from b(1) r(1) a1(1,5,6) s True big fo fe
      have "dynarrResize ra a s = Inr (s, ?a2\<lparr>buf := b, size_d := s\<rparr>)"
        by (simp add: dynarrResize_def)
      moreover have "element (?a2\<lparr>buf := b, size_d := s\<rparr>) i = element a i"
        if "i < nat (size_d a)" for i
        using b(3) [of i] el2 [OF that] that a1(4) by simp
      moreover have "element (?a2\<lparr>buf := b, size_d := s\<rparr>) i = replicate (nat (elem a)) 0"
        if "nat (size_d a) \<le> i" "i < nat s" for i
        using b(4) [of i] that a1(4,6) by simp
      ultimately show thesis using Some True big b(2) a1(3-6)
        by (intro ok [of "?a2\<lparr>buf := b, size_d := s\<rparr>"]) simp_all
    qed
  qed
qed

lemma dynarrCapacity_cases:
  assumes wf: "wf a" and c: "c = (if c0 < size_d a then size_d a else c0)"
    and nov: "elem a * c \<le> INT_MAX"
  obtains a1 where
      "wf a1" "offs a1 = 0" "size_d a1 = size_d a" "capa a1 = capa a" "elem a1 = elem a"
      "\<And>i. i < nat (size_d a) \<Longrightarrow> element a1 i = element a i"
      "c = capa a \<and> dynarrCapacity ra a c0 = Inr (capa a, a1) \<or>
       c \<noteq> capa a \<and> ra (hdr + elem a * c) = None \<and> dynarrCapacity ra a c0 = Inr (- 1, a1) \<or>
       c \<noteq> capa a \<and> ra (hdr + elem a * c) \<noteq> None \<and>
         (\<exists>b. dynarrCapacity ra a c0 = Inr (c, a1\<lparr>buf := b, capa := c\<rparr>) \<and>
              wf (a1\<lparr>buf := b, capa := c\<rparr>) \<and>
              (\<forall>i < nat (size_d a). element (a1\<lparr>buf := b, capa := c\<rparr>) i = element a i))"
proof -
  from reset_offset_ok [OF wf]
  obtain a1 where a1: "reset_offset a = Inr a1" "wf a1" "offs a1 = 0"
    "size_d a1 = size_d a" "capa a1 = capa a" "elem a1 = elem a"
    "\<And>i. i < nat (size_d a) \<Longrightarrow> element a1 i = element a i"
    by blast
  note bs1 = wf_bounds [OF a1(2)]
  from c bs1 a1(4) have c0: "0 \<le> c" "size_d a \<le> c" by (simp_all split: if_splits)
  from c0 bs1 a1(6) nov have fe: "fits (elem a * c)" by (simp add: fits_nonneg)
  have unf: "dynarrCapacity ra a c0 =
      (if c \<noteq> capa a then
         (case DYNARR_REALLOC ra (buf a1) (hdr + elem a * c) of
            None \<Rightarrow> Inr (- 1, a1)
          | Some b \<Rightarrow> Inr (c, a1\<lparr>buf := b, capa := c\<rparr>))
       else Inr (capa a, a1))"
    unfolding dynarrCapacity_def Let_def c [symmetric] using a1(1,5,6) fe by simp
  have "c = capa a \<and> dynarrCapacity ra a c0 = Inr (capa a, a1) \<or>
       c \<noteq> capa a \<and> ra (hdr + elem a * c) = None \<and> dynarrCapacity ra a c0 = Inr (- 1, a1) \<or>
       c \<noteq> capa a \<and> ra (hdr + elem a * c) \<noteq> None \<and>
         (\<exists>b. dynarrCapacity ra a c0 = Inr (c, a1\<lparr>buf := b, capa := c\<rparr>) \<and>
              wf (a1\<lparr>buf := b, capa := c\<rparr>) \<and>
              (\<forall>i < nat (size_d a). element (a1\<lparr>buf := b, capa := c\<rparr>) i = element a i))"
  proof (cases "c = capa a")
    case True
    with unf show ?thesis by simp
  next
    case False
    show ?thesis
    proof (cases "ra (hdr + elem a * c)")
      case None
      with False unf show ?thesis by (simp add: realloc_fails)
    next
      case (Some junk)
      from realloc_cells [of "elem a1" "capa a1" "buf a1" c ra junk] wf_block [OF a1(2)]
        Some a1(6) c0
      obtain r where r: "DYNARR_REALLOC ra (buf a1) (hdr + elem a1 * c) = Some r"
          "block (elem a1) c r"
          "\<And>k. 0 \<le> k \<Longrightarrow> k < capa a1 \<Longrightarrow> k < c \<Longrightarrow>
             cell (elem a1) r k = cell (elem a1) (buf a1) k"
        by auto
      let ?a2 = "a1\<lparr>buf := r, capa := c\<rparr>"
      have 1: "dynarrCapacity ra a c0 = Inr (c, ?a2)"
        using unf False r(1) a1(6) by simp
      have 2: "wf ?a2" using r(2) bs1 a1(3,4) c0 by (intro wfI) simp_all
      have 3: "element ?a2 i = element a i" if "i < nat (size_d a)" for i
      proof -
        from that have "int i < size_d a" by (simp add: zless_nat_eq_int_zless)
        with r(3) [of "int i"] bs1 a1(3,4) a1(7) [OF that] c0 show ?thesis
          by (simp add: element_cell)
      qed
      from 1 2 3 False Some show ?thesis by auto
    qed
  qed
  with a1(2-7) show thesis by (rule that)
qed

subsection \<open>\<^verbatim>\<open>DYNARR_INSERT\<close> and \<^verbatim>\<open>DYNARR_REMOVE\<close>\<close>

lemma dynarrGrow_ok:
  assumes wf: "wf a"
  obtains
    (fail) "offs a + size_d a = capa a" "offs a < size_d a"
      "ra (hdr + elem a * capa a * 2) = None" "dynarrGrow ra a = Inr (- 1, a)"
  | (ok) a1 where "dynarrGrow ra a = Inr (0, a1)" "wf a1" "size_d a1 = size_d a"
      "elem a1 = elem a" "\<And>i. i < nat (size_d a) \<Longrightarrow> element a1 i = element a i"
      "0 < capa a \<Longrightarrow> offs a1 + size_d a1 < capa a1"
      "offs a + size_d a \<noteq> capa a \<or> size_d a \<le> offs a \<or>
       ra (hdr + elem a * capa a * 2) \<noteq> None"
  | (overflow) "offs a + size_d a = capa a" "offs a < size_d a"
      "INT_MAX < elem a * capa a * 2" "dynarrGrow ra a = Inl Overflow"
proof -
  note blk = wf_block [OF wf] and bs = wf_bounds [OF wf]
  from wf show thesis
  proof (cases rule: dynarrGrow_cases [where ra = ra])
    case room
    with wf show ?thesis by (intro ok [of a]) simp_all
  next
    case overflow
    then show ?thesis by (intro that(3))
  next
    case (compact b)
    let ?a1 = "a\<lparr>buf := b, offs := 0\<rparr>"
    have "wf ?a1" using compact(4) bs by (intro wfI) simp_all
    moreover have "element ?a1 i = element a i" if "i < nat (size_d a)" for i
    proof -
      from that have "int i < size_d a" by (simp add: zless_nat_eq_int_zless)
      with compact(5) [of "int i"] show ?thesis by (simp add: element_cell)
    qed
    moreover have "offs ?a1 + size_d ?a1 < capa ?a1" if "0 < capa a"
      using that compact(1,2) bs by simp
    ultimately show ?thesis using compact(2,3) by (intro ok [of ?a1]) simp_all
  next
    case fail
    then show ?thesis by (intro that(1))
  next
    case (double junk b)
    let ?a1 = "a\<lparr>buf := b, capa := capa a * 2\<rparr>"
    have "wf ?a1" using double(5) bs by (intro wfI) simp_all
    moreover have "element ?a1 i = element a i" if "i < nat (size_d a)" for i
    proof -
      from that have "int i < size_d a" by (simp add: zless_nat_eq_int_zless)
      with double(6) [of "offs a + int i"] bs show ?thesis by (simp add: element_cell)
    qed
    moreover have "offs ?a1 + size_d ?a1 < capa ?a1"
      using double(1,2) bs by simp
    ultimately show ?thesis using double(3,4) by (intro ok [of ?a1]) simp_all
  qed
qed

lemma DYNARR_INSERT_cases:
  assumes wf: "wf a" and i: "DYNARR_VALID a i" and lv: "int (length v) = elem a"
  obtains
    (fail) "offs a + size_d a = capa a" "offs a < size_d a"
      "ra (hdr + elem a * capa a * 2) = None" "DYNARR_INSERT ra a i v = Inr (- 1, a)"
  | (ok) a' where "DYNARR_INSERT ra a i v = Inr (i, a')" "wf a'"
      "size_d a' = size_d a + 1" "elem a' = elem a"
      "\<And>k. k < nat (size_d a') \<Longrightarrow>
         element a' k = (if int k < i then element a k
                         else if int k = i then v else element a (k - 1))"
      "offs a + size_d a \<noteq> capa a \<or> size_d a \<le> offs a \<or>
       ra (hdr + elem a * capa a * 2) \<noteq> None"
  | (overflow) "offs a + size_d a = capa a" "offs a < size_d a"
      "INT_MAX < elem a * capa a * 2" "DYNARR_INSERT ra a i v = Inl Overflow"
proof -
  from i have i0: "0 \<le> i" "i < size_d a" by (simp_all add: DYNARR_VALID_def)
  from wf show thesis
  proof (cases rule: dynarrGrow_ok [where ra = ra])
    case fail
    with i show ?thesis by (intro that(1)) (simp_all add: DYNARR_INSERT_def)
  next
    case overflow
    with i show ?thesis by (intro that(3)) (simp_all add: DYNARR_INSERT_def)
  next
    case (ok a1)
    note bs = wf_bounds [OF wf] and bs1 = wf_bounds [OF ok(2)] and blk1 = wf_block [OF ok(2)]
    from bs i0 have "0 < capa a" by linarith
    from ok(6) [OF this] have room: "offs a1 + size_d a1 < capa a1" .
    let ?d = "offs a1 + i + 1" and ?s = "offs a1 + i" and ?n = "size_d a1 - i"
    from memmove_cells [OF blk1, of ?d ?s ?n] bs1 i0 ok(3) room
    obtain b1 where b1:
        "memmove_b (buf a1) (elem a1 * ?d) (elem a1 * ?s) (elem a1 * ?n) = Inr b1"
        "block (elem a1) (capa a1) b1"
        "\<And>k. 0 \<le> k \<Longrightarrow> k < capa a1 \<Longrightarrow> cell (elem a1) b1 k =
           (if ?d \<le> k \<and> k < ?d + ?n then cell (elem a1) (buf a1) (?s + (k - ?d))
            else cell (elem a1) (buf a1) k)"
      by auto
    from store_cell [OF b1(2), of ?s v] bs1 i0 ok(3,4) room lv
    obtain b2 where b2: "store b1 (elem a1 * ?s) v = Inr b2" "block (elem a1) (capa a1) b2"
        "\<And>k. 0 \<le> k \<Longrightarrow> k < capa a1 \<Longrightarrow>
           cell (elem a1) b2 k = (if k = ?s then v else cell (elem a1) b1 k)"
      by auto
    let ?a' = "a1\<lparr>buf := b2, size_d := size_d a1 + 1\<rparr>"
    have 1: "DYNARR_INSERT ra a i v = Inr (i, ?a')"
      using i ok(1) b1(1) b2(1) by (simp add: DYNARR_INSERT_def slot_def)
    have 2: "wf ?a'" using b2(2) bs1 room by (intro wfI) simp_all
    have 3: "element ?a' k = (if int k < i then element a k
                         else if int k = i then v else element a (k - 1))"
      if "k < nat (size_d ?a')" for k
    proof -
      from that ok(3) have k: "int k < size_d a + 1" by (simp add: zless_nat_eq_int_zless)
      with bs1 ok(3) room have kc: "0 \<le> offs a1 + int k" "offs a1 + int k < capa a1" by simp_all
      consider "int k < i" | "int k = i" | "i < int k" by linarith
      then show ?thesis
      proof cases
        case 1
        with i0 have "k < nat (size_d a)" by (simp add: zless_nat_eq_int_zless)
        from ok(5) [OF this] b2(3) [OF kc] b1(3) [OF kc] 1 show ?thesis
          by (simp add: element_cell)
      next
        case 2
        with b2(3) [OF kc] show ?thesis by (simp add: element_cell)
      next
        case 3
        with k i0 have k1: "k - 1 < nat (size_d a)" "int (k - 1) = int k - 1"
          by (simp_all add: zless_nat_eq_int_zless)
        from ok(5) [OF k1(1)] b2(3) [OF kc] b1(3) [OF kc] 3 k k1(2) ok(3) show ?thesis
          by (simp add: element_cell)
      qed
    qed
    from 1 2 3 ok(3,4,7) show ?thesis by (intro that(2) [of ?a']) simp_all
  qed
qed

lemma DYNARR_REMOVE_ok:
  assumes wf: "wf a" and i: "DYNARR_VALID a i"
  obtains a' where "DYNARR_REMOVE a i = Inr a'" "wf a'"
    "size_d a' = size_d a - 1" "elem a' = elem a" "offs a' = offs a" "capa a' = capa a"
    "\<And>k. k < nat (size_d a') \<Longrightarrow>
       element a' k = (if int k < i then element a k else element a (k + 1))"
proof -
  from i have i0: "0 \<le> i" "i < size_d a" by (simp_all add: DYNARR_VALID_def)
  note bs = wf_bounds [OF wf] and blk = wf_block [OF wf]
  let ?d = "offs a + i" and ?s = "offs a + i + 1" and ?n = "size_d a - 1 - i"
  from memmove_cells [OF blk, of ?d ?s ?n] bs i0
  obtain b where b: "memmove_b (buf a) (elem a * ?d) (elem a * ?s) (elem a * ?n) = Inr b"
      "block (elem a) (capa a) b"
      "\<And>k. 0 \<le> k \<Longrightarrow> k < capa a \<Longrightarrow> cell (elem a) b k =
         (if ?d \<le> k \<and> k < ?d + ?n then cell (elem a) (buf a) (?s + (k - ?d))
          else cell (elem a) (buf a) k)"
    by auto
  let ?a' = "a\<lparr>size_d := size_d a - 1, buf := b\<rparr>"
  have 1: "DYNARR_REMOVE a i = Inr ?a'"
    using i b(1) by (simp add: DYNARR_REMOVE_def slot_def Let_def)
  have 2: "wf ?a'" using b(2) bs i0 by (intro wfI) simp_all
  have 3: "element ?a' k = (if int k < i then element a k else element a (k + 1))"
    if "k < nat (size_d ?a')" for k
  proof -
    from that have k: "int k < size_d a - 1" by (simp add: zless_nat_eq_int_zless)
    with bs have kc: "0 \<le> offs a + int k" "offs a + int k < capa a" by simp_all
    from b(3) [OF kc] k show ?thesis
      by (simp add: element_cell add.assoc)
  qed
  from 1 2 3 show thesis by (intro that [of ?a']) simp_all
qed

section \<open>The sort on the array\<close>

lemma swap_step_ok:
  assumes wf: "wf a" and i: "0 < i" "i < size_d a"
  obtains a' where "swap_step a i = Inr a'" "wf a'" "size_d a' = size_d a" "elem a' = elem a"
    "offs a' = offs a" "capa a' = capa a"
    "elems a' = (elems a)[Suc (nat (i - 1)) := elems a ! nat (i - 1),
                          nat (i - 1) := elems a ! Suc (nat (i - 1))]"
proof -
  note bs = wf_bounds [OF wf] and blk = wf_block [OF wf]
  let ?e = "elem a" and ?p = "offs a + i"
  have temp: "load (buf a) (DARR_EPTR a i) ?e = Inr (element a (nat i))"
    using i by (intro load_element [OF wf]) simp_all
  have lt: "int (length (element a (nat i))) = ?e"
    using length_element [OF wf, of "nat i"] i bs by simp
  from memmove_cells [OF blk, of ?p "?p - 1" 1] bs i
  obtain b1 where b1: "memmove_b (buf a) (?e * ?p) (?e * (?p - 1)) (?e * 1) = Inr b1"
      "block ?e (capa a) b1"
      "\<And>k. 0 \<le> k \<Longrightarrow> k < capa a \<Longrightarrow> cell ?e b1 k =
         (if ?p \<le> k \<and> k < ?p + 1 then cell ?e (buf a) (?p - 1 + (k - ?p))
          else cell ?e (buf a) k)"
    by auto
  have b1': "cell ?e b1 k = (if k = ?p then cell ?e (buf a) (?p - 1) else cell ?e (buf a) k)"
    if "0 \<le> k" "k < capa a" for k
  proof (cases "k = ?p")
    case True
    with b1(3) [OF that] show ?thesis by simp
  next
    case False
    then have "\<not> (?p \<le> k \<and> k < ?p + 1)" by linarith
    with b1(3) [OF that] False show ?thesis by (simp only: if_False)
  qed
  have "?e * (?p - 1) + ?e = ?e * ?p" by (simp add: algebra_simps)
  then have no: "\<not> (0 < ?e \<and> ?e * ?p < ?e * (?p - 1) + ?e \<and> ?e * (?p - 1) < ?e * ?p + ?e)"
    by simp
  have cp: "memcpy_b (buf a) (DARR_EPTR a i) (DARR_EPTR a (i - 1)) ?e = Inr b1"
    using b1(1) no by (simp add: memcpy_b_def DARR_EPTR_def algebra_simps)
  from store_cell [OF b1(2), of "?p - 1" "element a (nat i)"] bs i lt
  obtain b2 where b2: "store b1 (?e * (?p - 1)) (element a (nat i)) = Inr b2"
      "block ?e (capa a) b2"
      "\<And>k. 0 \<le> k \<Longrightarrow> k < capa a \<Longrightarrow>
         cell ?e b2 k = (if k = ?p - 1 then element a (nat i) else cell ?e b1 k)"
    by auto
  let ?a' = "a\<lparr>buf := b2\<rparr>"
  have 1: "swap_step a i = Inr ?a'"
    using temp cp b2(1) bs by (simp add: swap_step_def DARR_EPTR_def algebra_simps)
  have 2: "wf ?a'" using b2(2) bs by (intro wfI) simp_all
  let ?m = "nat (i - 1)"
  have mi: "Suc ?m = nat i" "int ?m = i - 1" using i by simp_all
  have el: "element ?a' k =
      (if k = ?m then element a (Suc ?m) else if k = Suc ?m then element a ?m else element a k)"
    if "k < nat (size_d a)" for k
  proof -
    from that have k: "int k < size_d a" by (simp add: zless_nat_eq_int_zless)
    with bs have kc: "0 \<le> offs a + int k" "offs a + int k < capa a" by simp_all
    have e': "element ?a' k = cell ?e b2 (offs a + int k)" by (simp add: element_cell)
    consider "k = ?m" | "k = Suc ?m" | "k \<noteq> ?m" "k \<noteq> Suc ?m" by blast
    then show ?thesis
    proof cases
      case 1
      then have kk: "offs a + int k = ?p - 1" using mi by simp
      from b2(3) [OF kc] have "cell ?e b2 (offs a + int k) = element a (nat i)"
        unfolding kk by simp
      with e' 1 mi(1) show ?thesis by simp
    next
      case 2
      then have kk: "offs a + int k = ?p" using mi by simp
      from b2(3) [OF kc] have "cell ?e b2 (offs a + int k) = cell ?e b1 ?p"
        unfolding kk by simp
      also from b1' [OF kc] have "cell ?e b1 ?p = cell ?e (buf a) (?p - 1)"
        unfolding kk by simp
      also have "?p - 1 = offs a + int ?m" using mi(2) by simp
      finally show ?thesis using e' 2 by (simp add: element_cell)
    next
      case 3
      then have p: "offs a + int k \<noteq> ?p - 1" "offs a + int k \<noteq> ?p" using mi by linarith+
      with b2(3) [OF kc] have "cell ?e b2 (offs a + int k) = cell ?e b1 (offs a + int k)" by simp
      also from b1' [OF kc] p have "\<dots> = cell ?e (buf a) (offs a + int k)" by simp
      also have "\<dots> = element a k" by (simp add: element_cell)
      finally show ?thesis using e' 3 by simp
    qed
  qed
  have 3: "elems ?a' = (elems a)[Suc ?m := elems a ! ?m, ?m := elems a ! Suc ?m]"
  proof (rule nth_equalityI)
    show "length (elems ?a') = length ((elems a)[Suc ?m := elems a ! ?m, ?m := elems a ! Suc ?m])"
      by simp
    fix k assume "k < length (elems ?a')"
    then have k: "k < nat (size_d a)" by simp
    from i mi have m: "?m < nat (size_d a)" "Suc ?m < nat (size_d a)" by simp_all
    from el [OF k] k m
    show "elems ?a' ! k = (elems a)[Suc ?m := elems a ! ?m, ?m := elems a ! Suc ?m] ! k"
      by (simp add: nth_elems nth_list_update)
  qed
  from 1 2 3 show thesis by (intro that [of ?a']) simp_all
qed

lemma dynarrSortInsert_inner_refines:
  assumes "wf a" "0 \<le> i" "i < size_d a"
  shows "\<exists>a'. dynarrSortInsert_inner cmp a i = Inr a' \<and> wf a' \<and> size_d a' = size_d a \<and>
           elem a' = elem a \<and> offs a' = offs a \<and> capa a' = capa a \<and>
           elems a' = insert_down cmp (elems a) (nat i)"
  using assms
proof (induction cmp a i rule: dynarrSortInsert_inner.induct)
  case (1 cmp a i)
  note wf = "1.prems"(1)
  show ?case
  proof (cases "i > 0")
    case False
    with "1.prems" have "i = 0" by simp
    with wf show ?thesis by (simp add: dynarrSortInsert_inner.simps [of cmp a 0])
  next
    case True
    let ?m = "nat (i - 1)"
    from True "1.prems" have mi: "Suc ?m = nat i" "?m < nat (size_d a)" "Suc ?m < nat (size_d a)"
      by simp_all
    have x: "load (buf a) (DARR_EPTR a (i - 1)) (elem a) = Inr (element a ?m)"
      using True "1.prems" by (intro load_element [OF wf]) simp_all
    have y: "load (buf a) (DARR_EPTR a i) (elem a) = Inr (element a (Suc ?m))"
      using load_element [OF "1.prems"] mi by simp
    show ?thesis
    proof (cases "cmp (element a ?m) (element a (Suc ?m)) > 0")
      case False
      with True x y have "dynarrSortInsert_inner cmp a i = Inr a"
        by (simp add: dynarrSortInsert_inner.simps [of cmp a i])
      moreover from False mi have "insert_down cmp (elems a) (nat i) = elems a"
        unfolding mi(1) [symmetric] by (simp add: nth_elems)
      ultimately show ?thesis using wf by simp
    next
      case gt: True
      from swap_step_ok [OF wf True "1.prems"(3)]
      obtain a1 where a1: "swap_step a i = Inr a1" "wf a1" "size_d a1 = size_d a"
        "elem a1 = elem a" "offs a1 = offs a" "capa a1 = capa a"
        "elems a1 = (elems a)[Suc ?m := elems a ! ?m, ?m := elems a ! Suc ?m]"
        by blast
      from True "1.prems" a1(3) have i1: "0 \<le> i - 1" "i - 1 < size_d a1" by simp_all
      from "1.IH" [OF True x y gt a1(1,2) i1]
      obtain a' where a': "dynarrSortInsert_inner cmp a1 (i - 1) = Inr a'" "wf a'"
        "size_d a' = size_d a1" "elem a' = elem a1" "offs a' = offs a1" "capa a' = capa a1"
        "elems a' = insert_down cmp (elems a1) ?m"
        by blast
      from True x y gt a1(1) a'(1) have "dynarrSortInsert_inner cmp a i = Inr a'"
        by (simp add: dynarrSortInsert_inner.simps [of cmp a i])
      moreover from gt mi a1(7) a'(7) have "elems a' = insert_down cmp (elems a) (nat i)"
        unfolding mi(1) [symmetric] by (simp add: nth_elems)
      ultimately show ?thesis using a'(2-6) a1(3-6) by simp
    qed
  qed
qed

lemma dynarrSortInsert_outer_refines:
  assumes "wf a" "0 \<le> j"
  shows "\<exists>a'. dynarrSortInsert_outer cmp a j = Inr a' \<and> wf a' \<and> size_d a' = size_d a \<and>
           elem a' = elem a \<and> offs a' = offs a \<and> capa a' = capa a \<and>
           elems a' = passes cmp (elems a) (nat j) (nat (size_d a - j))"
  using assms
proof (induction cmp a j rule: dynarrSortInsert_outer.induct)
  case (1 cmp a j)
  show ?case
  proof (cases "j < size_d a")
    case False
    then have "nat (size_d a - j) = 0" by simp
    with False "1.prems" show ?thesis
      by (simp add: dynarrSortInsert_outer.simps [of cmp a j])
  next
    case True
    from dynarrSortInsert_inner_refines [OF "1.prems" True, of cmp]
    obtain a1 where a1: "dynarrSortInsert_inner cmp a j = Inr a1" "wf a1" "size_d a1 = size_d a"
      "elem a1 = elem a" "offs a1 = offs a" "capa a1 = capa a"
      "elems a1 = insert_down cmp (elems a) (nat j)"
      by blast
    from "1.prems" have j1: "0 \<le> j + 1" by simp
    from "1.IH" [OF True a1(1,2) j1]
    obtain a' where a': "dynarrSortInsert_outer cmp a1 (j + 1) = Inr a'" "wf a'"
      "size_d a' = size_d a1" "elem a' = elem a1" "offs a' = offs a1" "capa a' = capa a1"
      "elems a' = passes cmp (elems a1) (nat (j + 1)) (nat (size_d a1 - (j + 1)))"
      by blast
    from True a1(1) a'(1) have "dynarrSortInsert_outer cmp a j = Inr a'"
      by (simp add: dynarrSortInsert_outer.simps [of cmp a j])
    moreover have "nat (size_d a - j) = Suc (nat (size_d a - (j + 1)))" using True by simp
    moreover have "nat (j + 1) = Suc (nat j)" using "1.prems"(2) by simp
    ultimately show ?thesis using a'(2-7) a1(3-7) by simp
  qed
qed

section \<open>A reallocation that fails\<close>

lemma dynarrGrow_fails:
  assumes "wf a" "offs a + size_d a = capa a" "offs a < size_d a"
    "elem a * capa a * 2 \<le> INT_MAX" "ra (hdr + elem a * capa a * 2) = None"
  shows "dynarrGrow ra a = Inr (- 1, a)"
  using assms fits_double [OF assms(1,4)] by (simp add: dynarrGrow_def realloc_fails)

text \<open>
  Claim C1 fails as stated: \<^verbatim>\<open>dynarrResize\<close> and \<^verbatim>\<open>dynarrCapacity\<close> reset the
  offset before they reallocate, and a failed reallocation does not bring it back. The
  array below is reached from a new one by two pushes and a dequeue; its offset is 1
  before the failed calls and 0 after them.
\<close>

theorem failed_capacity_moves_offset:
  "run ra_ok [Push [7], Push [9], Dequeue] \<lparr>capa = 1, elem = 1, offs = 0, size_d = 0, buf = [0]\<rparr> =
     Inr \<lparr>capa = 2, elem = 1, offs = 1, size_d = 1, buf = [7, 9]\<rparr> \<and>
   dynarrCapacity ra_fail \<lparr>capa = 2, elem = 1, offs = 1, size_d = 1, buf = [7, 9]\<rparr> 5 =
     Inr (- 1, \<lparr>capa = 2, elem = 1, offs = 0, size_d = 1, buf = [9, 9]\<rparr>) \<and>
   dynarrResize ra_fail \<lparr>capa = 2, elem = 1, offs = 1, size_d = 1, buf = [7, 9]\<rparr> 5 =
     Inr (- 1, \<lparr>capa = 2, elem = 1, offs = 0, size_d = 1, buf = [9, 9]\<rparr>)"
  by code_simp

text \<open>
  Claim C1, amended. For every container and every operation that may reallocate, if
  the size the operation computes for the reallocation is in the range of \<^verbatim>\<open>int\<close>
  (\<open>elem * capa * 2\<close> for \<^verbatim>\<open>DYNARR_PUSH\<close>, \<^verbatim>\<open>DYNARR_INSERT\<close> and
  \<^verbatim>\<open>DYNARR_SHOVE\<close>; \<open>offs + s\<close> and \<open>elem * s\<close> for \<^verbatim>\<open>dynarrResize\<close>;
  \<open>elem * c\<close> for \<^verbatim>\<open>dynarrCapacity\<close>) and the reallocation fails, the operation
  returns -1 and the length, the capacity and the logical contents are those before
  the call. \<^verbatim>\<open>DYNARR_PUSH\<close>, \<^verbatim>\<open>DYNARR_INSERT\<close> and \<^verbatim>\<open>DYNARR_SHOVE\<close> leave the
  whole state unchanged, the offset included; \<^verbatim>\<open>dynarrResize\<close> and
  \<^verbatim>\<open>dynarrCapacity\<close> leave the offset 0, whatever it was.
\<close>

theorem failed_realloc_state:
  assumes wf: "wf a"
  shows "(offs a + size_d a = capa a \<and> offs a < size_d a \<and>
            elem a * capa a * 2 \<le> INT_MAX \<and> ra (hdr + elem a * capa a * 2) = None \<longrightarrow>
            DYNARR_PUSH ra a v = Inr (- 1, a) \<and>
            (DYNARR_VALID a i \<longrightarrow>
               DYNARR_INSERT ra a i v = Inr (- 1, a) \<and> DYNARR_SHOVE ra a i v = Inr (- 1, a))) \<and>
         (size_d a < s \<and> capa a < s \<and> offs a + s \<le> INT_MAX \<and> elem a * s \<le> INT_MAX \<and>
            ra (hdr + elem a * s) = None \<longrightarrow>
            (\<exists>a'. dynarrResize ra a s = Inr (- 1, a') \<and>
                  size_d a' = size_d a \<and> capa a' = capa a \<and> elem a' = elem a \<and>
                  elems a' = elems a \<and> offs a' = 0)) \<and>
         (max c (size_d a) \<noteq> capa a \<and> elem a * max c (size_d a) \<le> INT_MAX \<and>
            ra (hdr + elem a * max c (size_d a)) = None \<longrightarrow>
            (\<exists>a'. dynarrCapacity ra a c = Inr (- 1, a') \<and>
                  size_d a' = size_d a \<and> capa a' = capa a \<and> elem a' = elem a \<and>
                  elems a' = elems a \<and> offs a' = 0))"
proof (intro conjI impI)
  assume "offs a + size_d a = capa a \<and> offs a < size_d a \<and>
            elem a * capa a * 2 \<le> INT_MAX \<and> ra (hdr + elem a * capa a * 2) = None"
  then have g: "dynarrGrow ra a = Inr (- 1, a)" by (intro dynarrGrow_fails [OF wf]) simp_all
  then show "DYNARR_PUSH ra a v = Inr (- 1, a)" by (simp add: DYNARR_PUSH_def)
  assume "DYNARR_VALID a i"
  with g show "DYNARR_INSERT ra a i v = Inr (- 1, a)" "DYNARR_SHOVE ra a i v = Inr (- 1, a)"
    by (simp_all add: DYNARR_INSERT_def DYNARR_SHOVE_def)
next
  assume f: "size_d a < s \<and> capa a < s \<and> offs a + s \<le> INT_MAX \<and> elem a * s \<le> INT_MAX \<and>
            ra (hdr + elem a * s) = None"
  then have s: "size_d a < s" and nov: "offs a + s \<le> INT_MAX" "elem a * s \<le> INT_MAX"
    by simp_all
  from wf s nov show "\<exists>a'. dynarrResize ra a s = Inr (- 1, a') \<and>
                  size_d a' = size_d a \<and> capa a' = capa a \<and> elem a' = elem a \<and>
                  elems a' = elems a \<and> offs a' = 0"
  proof (cases rule: dynarrResize_grow [where ra = ra])
    case (fail a1)
    from fail(6,9) have "elems a1 = elems a" by (rule elems_eqI)
    with fail show ?thesis by auto
  next
    case (ok a2)
    with f show ?thesis by simp
  qed
next
  assume f: "max c (size_d a) \<noteq> capa a \<and> elem a * max c (size_d a) \<le> INT_MAX \<and>
            ra (hdr + elem a * max c (size_d a)) = None"
  then have nov: "elem a * max c (size_d a) \<le> INT_MAX" by simp
  have c: "max c (size_d a) = (if c < size_d a then size_d a else c)" by (simp add: max_def)
  from dynarrCapacity_cases [OF wf c nov, of ra]
  obtain a1 where a1: "offs a1 = 0" "size_d a1 = size_d a" "capa a1 = capa a" "elem a1 = elem a"
      "\<And>i. i < nat (size_d a) \<Longrightarrow> element a1 i = element a i"
      "dynarrCapacity ra a c = Inr (- 1, a1)"
    using f by auto
  from a1(2,5) have "elems a1 = elems a" by (rule elems_eqI)
  with a1 show "\<exists>a'. dynarrCapacity ra a c = Inr (- 1, a') \<and>
                  size_d a' = size_d a \<and> capa a' = capa a \<and> elem a' = elem a \<and>
                  elems a' = elems a \<and> offs a' = 0"
    by auto
qed

theorem failed_realloc_state_witness:
  "wf \<lparr>capa = 2, elem = 1, offs = 0, size_d = 2, buf = [7, 9]\<rparr> \<and>
   DYNARR_PUSH ra_fail \<lparr>capa = 2, elem = 1, offs = 0, size_d = 2, buf = [7, 9]\<rparr> [8] =
     Inr (- 1, \<lparr>capa = 2, elem = 1, offs = 0, size_d = 2, buf = [7, 9]\<rparr>) \<and>
   DYNARR_INSERT ra_fail \<lparr>capa = 2, elem = 1, offs = 0, size_d = 2, buf = [7, 9]\<rparr> 1 [8] =
     Inr (- 1, \<lparr>capa = 2, elem = 1, offs = 0, size_d = 2, buf = [7, 9]\<rparr>) \<and>
   DYNARR_SHOVE ra_fail \<lparr>capa = 2, elem = 1, offs = 0, size_d = 2, buf = [7, 9]\<rparr> 1 [8] =
     Inr (- 1, \<lparr>capa = 2, elem = 1, offs = 0, size_d = 2, buf = [7, 9]\<rparr>) \<and>
   wf \<lparr>capa = 2, elem = 1, offs = 1, size_d = 1, buf = [7, 9]\<rparr> \<and>
   offs \<lparr>capa = 2, elem = 1, offs = 1, size_d = 1, buf = [7, 9]\<rparr> = 1 \<and>
   (\<exists>a'. dynarrResize ra_fail \<lparr>capa = 2, elem = 1, offs = 1, size_d = 1, buf = [7, 9]\<rparr> 3 =
            Inr (- 1, a') \<and> size_d a' = 1 \<and> capa a' = 2 \<and> offs a' = 0 \<and>
         elems a' = elems \<lparr>capa = 2, elem = 1, offs = 1, size_d = 1, buf = [7, 9]\<rparr>) \<and>
   (\<exists>a'. dynarrCapacity ra_fail \<lparr>capa = 2, elem = 1, offs = 1, size_d = 1, buf = [7, 9]\<rparr> 3 =
            Inr (- 1, a') \<and> size_d a' = 1 \<and> capa a' = 2 \<and> offs a' = 0 \<and>
         elems a' = elems \<lparr>capa = 2, elem = 1, offs = 1, size_d = 1, buf = [7, 9]\<rparr>)"
  using failed_realloc_state [of "\<lparr>capa = 2, elem = 1, offs = 0, size_d = 2, buf = [7, 9]\<rparr>"
      ra_fail "[8]" 1 3 3]
    failed_realloc_state [of "\<lparr>capa = 2, elem = 1, offs = 1, size_d = 1, buf = [7, 9]\<rparr>"
      ra_fail "[8]" 1 3 3]
  by (auto simp: wf_def ra_fail_def DYNARR_VALID_def INT_MAX_def)

section \<open>The offset of an empty array\<close>









section \<open>Every operation keeps the invariants, but for one\<close>

lemma dynarrGrow_capa:
  "dynarrGrow ra a = Inr (r, a1) \<Longrightarrow> capa a1 = capa a \<or> capa a1 = capa a * 2"
  by (auto simp: dynarrGrow_def split: if_splits sum.splits option.splits)

lemma DYNARR_PUSH_wf:
  assumes wf: "wf a" and lv: "int (length v) = elem a" and c: "0 < capa a"
    and nov: "elem a * capa a * 2 \<le> INT_MAX"
  shows "\<exists>r a'. DYNARR_PUSH ra a v = Inr (r, a') \<and> wf a'"
  using wf
proof (cases rule: dynarrGrow_ok [where ra = ra])
  case fail
  with wf show ?thesis by (simp add: DYNARR_PUSH_def)
next
  case overflow
  with nov show ?thesis by simp
next
  case (ok a1)
  note bs1 = wf_bounds [OF ok(2)]
  from ok(6) [OF c] have room: "offs a1 + size_d a1 < capa a1" .
  from store_cell [OF wf_block [OF ok(2)], of "offs a1 + size_d a1" v] bs1 room lv ok(4)
  obtain b where b: "store (buf a1) (elem a1 * (offs a1 + size_d a1)) v = Inr b"
    "block (elem a1) (capa a1) b"
    by auto
  let ?a' = "a1\<lparr>buf := b, size_d := size_d a1 + 1\<rparr>"
  have "wf ?a'" using b(2) bs1 room by (intro wfI) simp_all
  moreover have "DYNARR_PUSH ra a v = Inr (size_d a1, ?a')"
    using ok(1) b(1) by (simp add: DYNARR_PUSH_def slot_def)
  ultimately show ?thesis by blast
qed

lemma DYNARR_POP_wf:
  assumes wf: "wf a" and s: "0 < size_d a"
  shows "DYNARR_POP a = Inr (element a (nat (size_d a - 1)), a\<lparr>size_d := size_d a - 1\<rparr>)"
    and "wf (a\<lparr>size_d := size_d a - 1\<rparr>)"
proof -
  note bs = wf_bounds [OF wf]
  from load_cell [OF wf_block [OF wf], of "offs a + (size_d a - 1)"] bs s
  have "load (buf a) (elem a * (offs a + (size_d a - 1))) (elem a) =
        Inr (cell (elem a) (buf a) (offs a + (size_d a - 1)))"
    by simp
  with s show "DYNARR_POP a = Inr (element a (nat (size_d a - 1)), a\<lparr>size_d := size_d a - 1\<rparr>)"
    by (simp add: DYNARR_POP_def slot_def Let_def element_cell)
  show "wf (a\<lparr>size_d := size_d a - 1\<rparr>)"
    using wf_block [OF wf] bs s by (intro wfI) simp_all
qed

lemma DYNARR_DEQUEUE_wf:
  assumes wf: "wf a" and s: "0 < size_d a"
  shows "DYNARR_DEQUEUE a = Inr (element a 0, a\<lparr>size_d := size_d a - 1, offs := offs a + 1\<rparr>)"
    and "wf (a\<lparr>size_d := size_d a - 1, offs := offs a + 1\<rparr>)"
proof -
  note bs = wf_bounds [OF wf]
  from load_cell [OF wf_block [OF wf], of "offs a"] bs s
  have "load (buf a) (elem a * offs a) (elem a) = Inr (cell (elem a) (buf a) (offs a))"
    by simp
  with s show "DYNARR_DEQUEUE a =
      Inr (element a 0, a\<lparr>size_d := size_d a - 1, offs := offs a + 1\<rparr>)"
    by (simp add: DYNARR_DEQUEUE_def slot_def Let_def element_cell)
  show "wf (a\<lparr>size_d := size_d a - 1, offs := offs a + 1\<rparr>)"
    using wf_block [OF wf] bs s by (intro wfI) simp_all
qed

lemma DYNARR_SHOVE_wf:
  assumes wf: "wf a" and i: "DYNARR_VALID a i" and lv: "int (length v) = elem a"
    and nov: "elem a * capa a * 2 \<le> INT_MAX"
  shows "\<exists>r a'. DYNARR_SHOVE ra a i v = Inr (r, a') \<and> wf a'"
  using wf
proof (cases rule: dynarrGrow_ok [where ra = ra])
  case fail
  with wf i show ?thesis by (simp add: DYNARR_SHOVE_def)
next
  case overflow
  with nov show ?thesis by simp
next
  case (ok a1)
  from i have i0: "0 \<le> i" "i < size_d a" by (simp_all add: DYNARR_VALID_def)
  note bs = wf_bounds [OF wf] and bs1 = wf_bounds [OF ok(2)] and blk1 = wf_block [OF ok(2)]
  from bs i0 have "0 < capa a" by linarith
  from ok(6) [OF this] have room: "offs a1 + size_d a1 < capa a1" .
  let ?w = "cell (elem a1) (buf a1) (offs a1 + i)"
  have ic: "0 \<le> offs a1 + i" "offs a1 + i < capa a1" using bs1 i0 ok(3) room by simp_all
  have ld: "load (buf a1) (elem a1 * (offs a1 + i)) (elem a1) = Inr ?w"
    by (rule load_cell [OF blk1 ic])
  have lw: "int (length ?w) = elem a1"
    using length_cell [OF bs1(1) ic, of "buf a1"] blk1 bs1 by (simp add: block_def)
  from store_cell [OF blk1, of "offs a1 + size_d a1" ?w] bs1 room lw
  obtain b1 where b1: "store (buf a1) (elem a1 * (offs a1 + size_d a1)) ?w = Inr b1"
    "block (elem a1) (capa a1) b1"
    by auto
  from store_cell [OF b1(2) ic, of v] lv ok(4)
  obtain b2 where b2: "store b1 (elem a1 * (offs a1 + i)) v = Inr b2"
    "block (elem a1) (capa a1) b2"
    by auto
  let ?a' = "a1\<lparr>buf := b2, size_d := size_d a1 + 1\<rparr>"
  have "wf ?a'" using b2(2) bs1 room by (intro wfI) simp_all
  moreover have "DYNARR_SHOVE ra a i v = Inr (i, ?a')"
    using i ok(1) ld b1(1) b2(1) bs1(3) by (simp add: DYNARR_SHOVE_def slot_def)
  ultimately show ?thesis by blast
qed

lemma DYNARR_DITCH_wf:
  assumes wf: "wf a" and i: "DYNARR_VALID a i"
  shows "\<exists>a'. DYNARR_DITCH a i = Inr a' \<and> wf a'"
proof -
  from i have i0: "0 \<le> i" "i < size_d a" by (simp_all add: DYNARR_VALID_def)
  then have s: "0 < size_d a" by simp
  note bs = wf_bounds [OF wf] and blk = wf_block [OF wf]
  let ?w = "element a (nat (size_d a - 1))" and ?a1 = "a\<lparr>size_d := size_d a - 1\<rparr>"
  note pop = DYNARR_POP_wf [OF wf s]
  have lw: "int (length ?w) = elem a"
    using length_element [OF wf, of "nat (size_d a - 1)"] s bs by simp
  from store_cell [OF blk, of "offs a + i" ?w] bs i0 lw
  obtain b where b: "store (buf a) (elem a * (offs a + i)) ?w = Inr b" "block (elem a) (capa a) b"
    by auto
  have "DYNARR_DITCH a i = Inr (?a1\<lparr>buf := b\<rparr>)"
    using i pop(1) b(1) by (simp add: DYNARR_DITCH_def slot_def)
  moreover have "wf (?a1\<lparr>buf := b\<rparr>)" using b(2) bs s by (intro wfI) simp_all
  ultimately show ?thesis by blast
qed

lemma dynarrResize_wf:
  assumes wf: "wf a" and nov: "offs a + s \<le> INT_MAX" "elem a * s \<le> INT_MAX"
  shows "\<exists>r a'. dynarrResize ra a s = Inr (r, a') \<and> wf a'"
proof -
  note bs = wf_bounds [OF wf] and blk = wf_block [OF wf]
  consider "s < size_d a" | "s = size_d a" | "size_d a < s" by linarith
  then show ?thesis
  proof cases
    case 1
    have "wf (a\<lparr>size_d := 0, offs := 0\<rparr>)" using blk bs by (intro wfI) simp_all
    moreover have "wf (a\<lparr>size_d := s\<rparr>)" if "0 \<le> s"
      using blk bs 1 that by (intro wfI) simp_all
    ultimately show ?thesis using 1 by (simp add: dynarrResize_def Let_def)
  next
    case 2
    with wf show ?thesis by (simp add: dynarrResize_def)
  next
    case 3
    from wf 3 nov show ?thesis
      by (cases rule: dynarrResize_grow [where ra = ra]) blast+
  qed
qed

lemma dynarrCapacity_wf:
  assumes wf: "wf a" and nov: "elem a * max c (size_d a) \<le> INT_MAX"
  shows "\<exists>r a'. dynarrCapacity ra a c = Inr (r, a') \<and> wf a'"
proof -
  have c: "max c (size_d a) = (if c < size_d a then size_d a else c)" by (simp add: max_def)
  show ?thesis
    by (rule dynarrCapacity_cases [OF wf c nov, of ra]) blast
qed

text \<open>
  From a state that satisfies the invariants, every operation whose precondition holds
  returns and re-establishes them, provided that the sizes it computes are in the
  range of \<^verbatim>\<open>int\<close> and that a push does not meet capacity 0. The last case
  is the theorem of claim C3 below.
\<close>

lemma exec_preserves_wf:
  assumes wf: "wf a" and p: "pre x a" and c: "\<And>v. x = Push v \<Longrightarrow> 0 < capa a"
    and g: "(\<exists>v. x = Push v) \<or> (\<exists>i v. x = Insert i v) \<or> (\<exists>i v. x = Shove i v) \<Longrightarrow>
            elem a * capa a * 2 \<le> INT_MAX"
    and r: "\<And>s. x = Resize s \<Longrightarrow> offs a + s \<le> INT_MAX \<and> elem a * s \<le> INT_MAX"
    and m: "\<And>c. x = Capacity c \<Longrightarrow> elem a * max c (size_d a) \<le> INT_MAX"
  shows "\<exists>a'. exec ra x a = Inr a' \<and> wf a'"
proof (cases x)
  case (Push v)
  with g have "elem a * capa a * 2 \<le> INT_MAX" by blast
  with DYNARR_PUSH_wf [OF wf, of v ra] Push p c show ?thesis by auto
next
  case Pop
  with DYNARR_POP_wf [OF wf] p show ?thesis by simp
next
  case Dequeue
  with DYNARR_DEQUEUE_wf [OF wf] p show ?thesis by simp
next
  case (Insert i v)
  with p have i: "DYNARR_VALID a i" and lv: "int (length v) = elem a" by simp_all
  from Insert g have nov: "elem a * capa a * 2 \<le> INT_MAX" by blast
  from wf i lv have "\<exists>r a'. DYNARR_INSERT ra a i v = Inr (r, a') \<and> wf a'"
  proof (cases rule: DYNARR_INSERT_cases [where ra = ra])
    case fail
    with wf show ?thesis by blast
  next
    case overflow
    with nov show ?thesis by simp
  next
    case (ok a')
    then show ?thesis by blast
  qed
  with Insert show ?thesis by auto
next
  case (Shove i v)
  with g have "elem a * capa a * 2 \<le> INT_MAX" by blast
  with DYNARR_SHOVE_wf [OF wf, of i v ra] Shove p show ?thesis by auto
next
  case (Remove i)
  with p have i: "DYNARR_VALID a i" by simp
  from DYNARR_REMOVE_ok [OF wf i] Remove show ?thesis by (metis exec.simps(6))
next
  case (Ditch i)
  with DYNARR_DITCH_wf [OF wf, of i] p show ?thesis by simp
next
  case (Resize s)
  with dynarrResize_wf [OF wf, of s ra] r show ?thesis by auto
next
  case (Capacity c)
  with dynarrCapacity_wf [OF wf, of c ra] m show ?thesis by auto
next
  case Clear
  have "wf (DYNARR_CLEAR a)"
    using wf_block [OF wf] wf_bounds [OF wf] by (intro wfI) (simp_all add: DYNARR_CLEAR_def)
  with Clear show ?thesis by simp
qed

lemma DYNARR_AT_element:
  assumes "wf a" "DYNARR_VALID a i"
  shows "DYNARR_AT a i = Inr (cell (elem a) (buf a) (offs a + i))"
    and "cell (elem a) (buf a) (offs a + i) = element a (nat i)"
proof -
  from assms(2) have i: "0 \<le> i" "i < size_d a" by (simp_all add: DYNARR_VALID_def)
  from load_element [OF assms(1) i] assms(2) i
  show "DYNARR_AT a i = Inr (cell (elem a) (buf a) (offs a + i))"
    by (simp add: DYNARR_AT_def slot_def DARR_EPTR_def element_cell)
  from i show "cell (elem a) (buf a) (offs a + i) = element a (nat i)"
    by (simp add: element_cell)
qed

lemma push_capacity_zero:
  assumes wf: "wf a" and c: "capa a = 0" and lv: "int (length v) = elem a"
  shows "dynarrGrow ra a = Inr (0, a\<lparr>buf := [], offs := 0\<rparr>)"
    and "DYNARR_PUSH ra a v = Inl OutOfBounds"
proof -
  note bs = wf_bounds [OF wf]
  from bs c have z: "offs a = 0" "size_d a = 0" by simp_all
  from wf c have b: "buf a = []" by (simp add: wf_def)
  show g: "dynarrGrow ra a = Inr (0, a\<lparr>buf := [], offs := 0\<rparr>)"
    using z c b
    by (simp add: dynarrGrow_def memcpy_b_def memmove_b_def in_range_def DARR_EPTR_def)
  from bs(1) lv have "0 < int (length v)" by (simp only:)
  then have "0 < length v" by simp
  then have "store [] 0 v = Inl OutOfBounds" by (simp add: store_def in_range_def)
  with g z show "DYNARR_PUSH ra a v = Inl OutOfBounds"
    by (simp add: DYNARR_PUSH_def slot_def)
qed

subsection \<open>The length of the block stays in the range of \<^verbatim>\<open>int\<close>\<close>

text \<open>
  The sizes that the source computes from an argument, or by doubling, are the ones
  that can leave the range of \<^verbatim>\<open>int\<close>, and the model checks them. So an operation
  that returns leaves a block of at most \<^verbatim>\<open>INT_MAX\<close> bytes if it was given one, and
  in such a block every product \<open>elem * k\<close> with \<open>k\<close> up to the capacity (an offset
  inside the block, or the size of a move) is in range.
\<close>

lemma within_block_fits:
  assumes "wf a" "elem a * capa a \<le> INT_MAX" "0 \<le> k" "k \<le> capa a"
  shows "fits (elem a * k)"
  using fits_scaled(2) [OF wf_bounds(1) [OF assms(1)] assms(3,4,2)] .

lemma dynarrGrow_range:
  assumes "dynarrGrow ra a = Inr (r, a1)" "elem a * capa a \<le> INT_MAX"
  shows "elem a1 = elem a \<and> elem a1 * capa a1 \<le> INT_MAX"
  using assms
  by (auto simp: dynarrGrow_def fits_def mult.assoc split: if_splits sum.splits option.splits)

lemma zero_new_elements_range:
  "zero_new_elements a s = Inr (r, a') \<Longrightarrow> elem a' = elem a \<and> capa a' = capa a"
  by (auto simp: zero_new_elements_def split: if_splits sum.splits)

lemma reset_offset_range:
  "reset_offset a = Inr a1 \<Longrightarrow> elem a1 = elem a \<and> capa a1 = capa a"
  by (auto simp: reset_offset_def split: if_splits sum.splits)

lemma dynarrResize_range:
  assumes "dynarrResize ra a s = Inr (r, a')" "elem a * capa a \<le> INT_MAX"
  shows "elem a' = elem a \<and> elem a' * capa a' \<le> INT_MAX"
  using assms
  by (auto simp: dynarrResize_def fits_def Let_def split: if_splits sum.splits option.splits
      dest!: zero_new_elements_range reset_offset_range)

lemma dynarrCapacity_range:
  assumes "dynarrCapacity ra a c = Inr (r, a')" "elem a * capa a \<le> INT_MAX"
  shows "elem a' = elem a \<and> elem a' * capa a' \<le> INT_MAX"
  using assms
  by (auto simp: dynarrCapacity_def fits_def Let_def split: if_splits sum.splits option.splits
      dest!: reset_offset_range)

lemma exec_range:
  assumes "exec ra x a = Inr a'" "elem a * capa a \<le> INT_MAX"
  shows "elem a' = elem a \<and> elem a' * capa a' \<le> INT_MAX"
proof (cases x)
  case (Push v)
  with assms show ?thesis
    by (auto simp: DYNARR_PUSH_def split: if_splits sum.splits prod.splits dest!: dynarrGrow_range)
next
  case Pop
  with assms show ?thesis
    by (auto simp: DYNARR_POP_def Let_def split: if_splits sum.splits prod.splits)
next
  case Dequeue
  with assms show ?thesis
    by (auto simp: DYNARR_DEQUEUE_def Let_def split: if_splits sum.splits prod.splits)
next
  case (Insert i v)
  with assms show ?thesis
    by (auto simp: DYNARR_INSERT_def split: if_splits sum.splits prod.splits dest!: dynarrGrow_range)
next
  case (Shove i v)
  with assms show ?thesis
    by (auto simp: DYNARR_SHOVE_def split: if_splits sum.splits prod.splits dest!: dynarrGrow_range)
next
  case (Remove i)
  with assms show ?thesis
    by (auto simp: DYNARR_REMOVE_def Let_def split: if_splits sum.splits prod.splits)
next
  case (Ditch i)
  with assms show ?thesis
    by (auto simp: DYNARR_DITCH_def DYNARR_POP_def Let_def split: if_splits sum.splits prod.splits)
next
  case (Resize s)
  with assms(1) obtain r where "dynarrResize ra a s = Inr (r, a')"
    by (cases "dynarrResize ra a s") auto
  from dynarrResize_range [OF this assms(2)] show ?thesis .
next
  case (Capacity c)
  with assms(1) obtain r where "dynarrCapacity ra a c = Inr (r, a')"
    by (cases "dynarrCapacity ra a c") auto
  from dynarrCapacity_range [OF this assms(2)] show ?thesis .
next
  case Clear
  with assms show ?thesis by (auto simp: DYNARR_CLEAR_def)
qed

subsection \<open>Appending to a block of capacity 0\<close>

text \<open>
  \<^verbatim>\<open>DYNARR_CAPACITY(a, 0)\<close> on an empty array reallocates the block to no element
  at all. \<^verbatim>\<open>dynarrGrow\<close> then finds \<open>offs + size = capa\<close> and \<open>offs \<ge> size\<close>,
  resets the offset, which gains no room, and reports success.
\<close>

text \<open>
  Claim C3, at the input where the code leaves it. The state reached from
  \<^verbatim>\<open>DYNARR_NEW\<close> by \<^verbatim>\<open>DYNARR_CAPACITY(a, 0)\<close> satisfies the invariants
  (\<open>offs \<ge> 0\<close>, \<open>size \<ge> 0\<close>, \<open>offs + size \<le> capa\<close>), the allocator succeeds, and
  \<^verbatim>\<open>DYNARR_PUSH\<close> has no precondition; yet the push does not re-establish the
  invariants: its store lies outside the block.
\<close>

theorem push_after_capacity_zero:
  "dynarrNew za_ok 4 = Some \<lparr>capa = 1, elem = 4, offs = 0, size_d = 0, buf = [0, 0, 0, 0]\<rparr> \<and>
   run ra_ok [Capacity 0] \<lparr>capa = 1, elem = 4, offs = 0, size_d = 0, buf = [0, 0, 0, 0]\<rparr> =
     Inr \<lparr>capa = 0, elem = 4, offs = 0, size_d = 0, buf = []\<rparr> \<and>
   wf \<lparr>capa = 0, elem = 4, offs = 0, size_d = 0, buf = []\<rparr> \<and>
   exec ra_ok (Push [1, 2, 3, 4]) \<lparr>capa = 0, elem = 4, offs = 0, size_d = 0, buf = []\<rparr> =
     Inl OutOfBounds"
  by (simp add: wf_def) code_simp

section \<open>Making room for an append\<close>





section \<open>Resizing to a larger size\<close>

lemma elems_append_eqI:
  assumes "nat (size_d a') = nat (size_d a) + length ys"
    and "\<And>i. i < nat (size_d a) \<Longrightarrow> element a' i = element a i"
    and "\<And>i. nat (size_d a) \<le> i \<Longrightarrow> i < nat (size_d a') \<Longrightarrow> element a' i = ys ! (i - nat (size_d a))"
  shows "elems a' = elems a @ ys"
proof (rule nth_equalityI)
  show "length (elems a') = length (elems a @ ys)" using assms(1) by simp
next
  fix i assume "i < length (elems a')"
  then have i: "i < nat (size_d a')" by simp
  show "elems a' ! i = (elems a @ ys) ! i"
  proof (cases "i < nat (size_d a)")
    case True
    with i assms(2) show ?thesis by (simp add: nth_elems nth_append)
  next
    case False
    with i assms(3) show ?thesis by (simp add: nth_elems nth_append)
  qed
qed

text \<open>
  The growing branch computes \<open>offs + s\<close> and \<open>elem * s\<close> in \<^verbatim>\<open>int\<close>. On a new
  array of 4-byte elements and \<open>s = 2^30\<close> the product is \<open>2^32\<close>, which \<^verbatim>\<open>int\<close>
  does not hold: the call neither resizes nor reports a failure.
\<close>

theorem dynarrResize_overflow:
  "dynarrNew za_ok 4 = Some \<lparr>capa = 1, elem = 4, offs = 0, size_d = 0, buf = [0, 0, 0, 0]\<rparr> \<and>
   wf \<lparr>capa = 1, elem = 4, offs = 0, size_d = 0, buf = [0, 0, 0, 0]\<rparr> \<and>
   dynarrResize ra_ok \<lparr>capa = 1, elem = 4, offs = 0, size_d = 0, buf = [0, 0, 0, 0]\<rparr> 1073741824 =
     Inl Overflow"
  by (simp add: wf_def) code_simp

text \<open>
  Claim C5, amended. For every container and every \<open>s\<close> above its length such that
  \<open>offs + s\<close> and \<open>elem * s\<close> are at most \<^verbatim>\<open>INT_MAX\<close>, \<^verbatim>\<open>dynarrResize\<close> returns; it
  fails (returns -1) exactly when \<open>s\<close> exceeds the capacity and the reallocation
  fails. When it succeeds it returns \<open>s\<close> and sets the length to \<open>s\<close>; the offset is
  0 if \<open>offs + s\<close> exceeded the capacity (the live data were moved down) and
  unchanged otherwise; the capacity is exactly \<open>s\<close> if \<open>s\<close> exceeded it and unchanged
  otherwise; the old elements keep their places in the logical sequence and the new
  ones, at \<open>[oldLength, s)\<close>, are all zero bytes.
\<close>

theorem dynarrResize_grows:
  assumes wf: "wf a" and s: "size_d a < s"
    and nov: "offs a + s \<le> INT_MAX" "elem a * s \<le> INT_MAX"
  shows "\<exists>r a'. dynarrResize ra a s = Inr (r, a') \<and>
           r = (if capa a < s \<and> ra (hdr + elem a * s) = None then - 1 else s) \<and>
           (r = s \<longrightarrow>
              size_d a' = s \<and> elem a' = elem a \<and>
              offs a' = (if capa a < offs a + s then 0 else offs a) \<and>
              capa a' = (if capa a < s then s else capa a) \<and>
              offs a' + size_d a' \<le> capa a' \<and>
              elems a' = elems a @ replicate (nat (s - size_d a)) (replicate (nat (elem a)) 0))"
  using wf s nov
proof (cases rule: dynarrResize_grow [where ra = ra])
  case (fail a1)
  with s wf_bounds [OF wf] show ?thesis by auto
next
  case (ok a2)
  note bs = wf_bounds [OF wf]
  have "elems a2 = elems a @ replicate (nat (s - size_d a)) (replicate (nat (elem a)) 0)"
  proof (rule elems_append_eqI)
    show "nat (size_d a2) = nat (size_d a) + length (replicate (nat (s - size_d a)) (replicate (nat (elem a)) (0::byte)))"
      using ok(4) s bs by simp
    show "element a2 i = element a i" if "i < nat (size_d a)" for i
      by (rule ok(8) [OF that])
    show "element a2 i = replicate (nat (s - size_d a)) (replicate (nat (elem a)) 0) ! (i - nat (size_d a))"
      if "nat (size_d a) \<le> i" "i < nat (size_d a2)" for i
    proof -
      from that ok(4) bs s have "i - nat (size_d a) < nat (s - size_d a)" by linarith
      with ok(9) [of i] that ok(4) show ?thesis by simp
    qed
  qed
  moreover have "offs a2 + size_d a2 \<le> capa a2" using wf_bounds [OF ok(3)] by simp
  ultimately show ?thesis using ok(1,2,4-7) by auto
qed

theorem dynarrResize_grows_witness:
  "wf \<lparr>capa = 2, elem = 1, offs = 1, size_d = 1, buf = [7, 9]\<rparr> \<and>
   (\<exists>a'. dynarrResize ra_ok \<lparr>capa = 2, elem = 1, offs = 1, size_d = 1, buf = [7, 9]\<rparr> 3 = Inr (3, a') \<and>
      size_d a' = 3 \<and> elem a' = 1 \<and> offs a' = 0 \<and> capa a' = 3 \<and>
      elems a' = elems \<lparr>capa = 2, elem = 1, offs = 1, size_d = 1, buf = [7, 9]\<rparr> @ [[0], [0]])"
  using dynarrResize_grows [of "\<lparr>capa = 2, elem = 1, offs = 1, size_d = 1, buf = [7, 9]\<rparr>" 3 ra_ok]
  by (auto simp: wf_def ra_ok_def numeral_2_eq_2 INT_MAX_def)

section \<open>Inserting and removing at the same index\<close>

text \<open>
  Claim C6. For every container, every valid index \<open>i\<close> and every value \<open>v\<close> (of the
  element size): whenever \<^verbatim>\<open>DYNARR_INSERT\<close> returns, it returns -1 or \<open>i\<close>, and if
  it succeeded, the \<^verbatim>\<open>DYNARR_REMOVE\<close> at \<open>i\<close> that follows restores the original
  logical sequence: the same length and the same element at every logical index.
  \<^verbatim>\<open>DYNARR_INSERT\<close> does return when \<open>elem * capa * 2\<close>, which \<^verbatim>\<open>dynarrGrow\<close> may
  compute, is at most \<^verbatim>\<open>INT_MAX\<close>.
\<close>

theorem insert_remove_roundtrip:
  assumes wf: "wf a" and i: "DYNARR_VALID a i" and lv: "int (length v) = elem a"
  shows "(\<forall>r a'. DYNARR_INSERT ra a i v = Inr (r, a') \<longrightarrow>
            (r = - 1 \<or> r = i) \<and>
            (r \<noteq> - 1 \<longrightarrow>
               (\<exists>a''. DYNARR_REMOVE a' i = Inr a'' \<and> size_d a'' = size_d a \<and>
                      elems a'' = elems a))) \<and>
         (elem a * capa a * 2 \<le> INT_MAX \<longrightarrow> (\<exists>r a'. DYNARR_INSERT ra a i v = Inr (r, a')))"
  using wf i lv
proof (cases rule: DYNARR_INSERT_cases [where ra = ra])
  case fail
  then show ?thesis by simp
next
  case overflow
  then show ?thesis by simp
next
  case (ok a')
  from i have i0: "0 \<le> i" "i < size_d a" by (simp_all add: DYNARR_VALID_def)
  from i0 ok(3) have i': "DYNARR_VALID a' i" by (simp add: DYNARR_VALID_def)
  from DYNARR_REMOVE_ok [OF ok(2) i']
  obtain a'' where r: "DYNARR_REMOVE a' i = Inr a''" "size_d a'' = size_d a' - 1"
    "\<And>k. k < nat (size_d a'') \<Longrightarrow>
       element a'' k = (if int k < i then element a' k else element a' (k + 1))"
    by blast
  from r(2) ok(3) have sz: "size_d a'' = size_d a" by simp
  have "elems a'' = elems a"
  proof (rule elems_eqI [OF sz])
    fix k assume k: "k < nat (size_d a)"
    then have k': "k < nat (size_d a'')" "k < nat (size_d a')" "k + 1 < nat (size_d a')"
      using sz ok(3) by simp_all
    show "element a'' k = element a k"
    proof (cases "int k < i")
      case True
      with r(3) [OF k'(1)] ok(5) [OF k'(2)] show ?thesis by simp
    next
      case False
      with r(3) [OF k'(1)] ok(5) [OF k'(3)] show ?thesis by simp
    qed
  qed
  with r(1) sz ok(1) i0 show ?thesis by auto
qed

theorem insert_remove_roundtrip_witness:
  "wf \<lparr>capa = 2, elem = 1, offs = 0, size_d = 2, buf = [7, 9]\<rparr> \<and>
   DYNARR_VALID \<lparr>capa = 2, elem = 1, offs = 0, size_d = 2, buf = [7, 9]\<rparr> 1 \<and>
   (\<exists>a'. DYNARR_INSERT ra_ok \<lparr>capa = 2, elem = 1, offs = 0, size_d = 2, buf = [7, 9]\<rparr> 1 [8] =
            Inr (1, a') \<and>
      (\<exists>a''. DYNARR_REMOVE a' 1 = Inr a'' \<and> size_d a'' = 2 \<and>
         elems a'' = elems \<lparr>capa = 2, elem = 1, offs = 0, size_d = 2, buf = [7, 9]\<rparr>))"
proof -
  let ?a = "\<lparr>capa = 2, elem = 1, offs = 0, size_d = 2, buf = [7, 9]\<rparr>"
  have wf: "wf ?a" and v: "DYNARR_VALID ?a 1" and l: "int (length [8 :: byte]) = elem ?a"
    by (simp_all add: wf_def DYNARR_VALID_def)
  have ok: "DYNARR_INSERT ra_ok ?a 1 [8] \<noteq> Inr (- 1, a')" for a'
    by code_simp
  have m: "elem ?a * capa ?a * 2 \<le> INT_MAX" by (simp add: INT_MAX_def)
  note t = insert_remove_roundtrip [OF wf v l, of ra_ok]
  from t m obtain r a' where ins: "DYNARR_INSERT ra_ok ?a 1 [8] = Inr (r, a')" by blast
  with ok have "r \<noteq> - 1" by blast
  with t ins have "r = 1" and
    "\<exists>a''. DYNARR_REMOVE a' 1 = Inr a'' \<and> size_d a'' = size_d ?a \<and> elems a'' = elems ?a"
    by blast+
  with ins wf v show ?thesis by auto
qed

section \<open>Linear search\<close>

lemma memcmp_b_eq: "length xs = length ys \<Longrightarrow> (memcmp_b xs ys = 0) = (xs = ys)"
  by (induction xs ys rule: list_induct2) auto

lemma load_key:
  assumes "0 \<le> e" "e \<le> int (length k)"
  shows "load k 0 e = Inr (take (nat e) k)"
  using assms by (simp add: load_def in_range_def)

lemma dynarrFindLinear_loop_spec:
  assumes "wf a" "elem a \<le> int (length k)" "0 \<le> i"
  shows "\<exists>r. dynarrFindLinear_loop a k i = Inr r \<and>
           (r = - 1 \<and> (\<forall>j. i \<le> j \<and> j < size_d a \<longrightarrow> element a (nat j) \<noteq> take (nat (elem a)) k) \<or>
            i \<le> r \<and> r < size_d a \<and> element a (nat r) = take (nat (elem a)) k \<and>
              (\<forall>j. i \<le> j \<and> j < r \<longrightarrow> element a (nat j) \<noteq> take (nat (elem a)) k))"
  using assms
proof (induction a k i rule: dynarrFindLinear_loop.induct)
  case (1 a k i)
  note bs = wf_bounds [OF "1.prems"(1)]
  show ?case
  proof (cases "i < size_d a")
    case False
    then have "dynarrFindLinear_loop a k i = Inr (- 1)"
      by (simp add: dynarrFindLinear_loop.simps [of a k i])
    moreover from False
    have "\<forall>j. i \<le> j \<and> j < size_d a \<longrightarrow> element a (nat j) \<noteq> take (nat (elem a)) k"
      by auto
    ultimately show ?thesis by blast
  next
    case True
    have kb: "load k 0 (elem a) = Inr (take (nat (elem a)) k)"
      using bs "1.prems"(2) by (intro load_key) simp_all
    have eb: "load (buf a) (DARR_EPTR a i) (elem a) = Inr (element a (nat i))"
      by (rule load_element [OF "1.prems"(1,3) True])
    have len: "length (take (nat (elem a)) k) = length (element a (nat i))"
      using length_element [OF "1.prems"(1), of "nat i"] True "1.prems"(2,3) bs by simp
    show ?thesis
    proof (cases "element a (nat i) = take (nat (elem a)) k")
      case eq: True
      then have "dynarrFindLinear_loop a k i = Inr i"
        using True kb eb memcmp_b_eq [OF len]
        by (simp add: dynarrFindLinear_loop.simps [of a k i])
      with True eq show ?thesis by auto
    next
      case ne: False
      then have m: "memcmp_b (take (nat (elem a)) k) (element a (nat i)) \<noteq> 0"
        using memcmp_b_eq [OF len] by auto
      then have unf: "dynarrFindLinear_loop a k i = dynarrFindLinear_loop a k (i + 1)"
        using True kb eb by (simp add: dynarrFindLinear_loop.simps [of a k i])
      from "1.IH" [OF True kb eb m "1.prems"(1,2)] "1.prems"(3)
      obtain r where r: "dynarrFindLinear_loop a k (i + 1) = Inr r"
        "r = - 1 \<and> (\<forall>j. i + 1 \<le> j \<and> j < size_d a \<longrightarrow> element a (nat j) \<noteq> take (nat (elem a)) k) \<or>
         i + 1 \<le> r \<and> r < size_d a \<and> element a (nat r) = take (nat (elem a)) k \<and>
           (\<forall>j. i + 1 \<le> j \<and> j < r \<longrightarrow> element a (nat j) \<noteq> take (nat (elem a)) k)"
        by auto
      have step: "element a (nat j) \<noteq> take (nat (elem a)) k"
        if "i \<le> j" "j < i + 1" for j
      proof -
        from that have "j = i" by simp
        with ne show ?thesis by simp
      qed
      from r(2) show ?thesis
      proof
        assume a: "r = - 1 \<and> (\<forall>j. i + 1 \<le> j \<and> j < size_d a \<longrightarrow> element a (nat j) \<noteq> take (nat (elem a)) k)"
        have "\<forall>j. i \<le> j \<and> j < size_d a \<longrightarrow> element a (nat j) \<noteq> take (nat (elem a)) k"
        proof (intro allI impI)
          fix j assume j: "i \<le> j \<and> j < size_d a"
          show "element a (nat j) \<noteq> take (nat (elem a)) k"
          proof (cases "j = i")
            case True with ne show ?thesis by simp
          next
            case False with j a show ?thesis by simp
          qed
        qed
        with a r(1) unf show ?thesis by simp
      next
        assume a: "i + 1 \<le> r \<and> r < size_d a \<and> element a (nat r) = take (nat (elem a)) k \<and>
           (\<forall>j. i + 1 \<le> j \<and> j < r \<longrightarrow> element a (nat j) \<noteq> take (nat (elem a)) k)"
        have "\<forall>j. i \<le> j \<and> j < r \<longrightarrow> element a (nat j) \<noteq> take (nat (elem a)) k"
        proof (intro allI impI)
          fix j assume j: "i \<le> j \<and> j < r"
          show "element a (nat j) \<noteq> take (nat (elem a)) k"
          proof (cases "j = i")
            case True with ne show ?thesis by simp
          next
            case False with j a show ?thesis by simp
          qed
        qed
        with a r(1) unf show ?thesis by simp
      qed
    qed
  qed
qed

text \<open>
  Claim C7. For every container and every key (an object of at least the element size),
  \<^verbatim>\<open>dynarrFindLinear\<close> returns the smallest logical index whose element has the
  bytes of the key, all \<open>elem\<close> of them, and -1 when no element has.
\<close>

theorem dynarrFindLinear_first:
  assumes wf: "wf a" and k: "elem a \<le> int (length k)"
  shows "\<exists>r. dynarrFindLinear a k = Inr r \<and>
           (if \<exists>i < nat (size_d a). elems a ! i = take (nat (elem a)) k
            then 0 \<le> r \<and> nat r < nat (size_d a) \<and> elems a ! nat r = take (nat (elem a)) k \<and>
                 (\<forall>j < nat r. elems a ! j \<noteq> take (nat (elem a)) k)
            else r = - 1)"
proof -
  let ?key = "take (nat (elem a)) k"
  from dynarrFindLinear_loop_spec [OF wf k, of 0]
  obtain r where r: "dynarrFindLinear a k = Inr r"
    "r = - 1 \<and> (\<forall>j. 0 \<le> j \<and> j < size_d a \<longrightarrow> element a (nat j) \<noteq> ?key) \<or>
     0 \<le> r \<and> r < size_d a \<and> element a (nat r) = ?key \<and>
       (\<forall>j. 0 \<le> j \<and> j < r \<longrightarrow> element a (nat j) \<noteq> ?key)"
    by (auto simp: dynarrFindLinear_def)
  from r(2) have "if \<exists>i < nat (size_d a). elems a ! i = ?key
            then 0 \<le> r \<and> nat r < nat (size_d a) \<and> elems a ! nat r = ?key \<and>
                 (\<forall>j < nat r. elems a ! j \<noteq> ?key)
            else r = - 1"
  proof
    assume a: "r = - 1 \<and> (\<forall>j. 0 \<le> j \<and> j < size_d a \<longrightarrow> element a (nat j) \<noteq> ?key)"
    have "\<not> (\<exists>i < nat (size_d a). elems a ! i = ?key)"
    proof
      assume "\<exists>i < nat (size_d a). elems a ! i = ?key"
      then obtain i where i: "i < nat (size_d a)" "elems a ! i = ?key" by blast
      from i(1) have "0 \<le> int i \<and> int i < size_d a" by (simp add: zless_nat_eq_int_zless)
      with a have "element a (nat (int i)) \<noteq> ?key" by blast
      with i show False by (simp add: nth_elems)
    qed
    with a show ?thesis by simp
  next
    assume a: "0 \<le> r \<and> r < size_d a \<and> element a (nat r) = ?key \<and>
       (\<forall>j. 0 \<le> j \<and> j < r \<longrightarrow> element a (nat j) \<noteq> ?key)"
    then have rn: "nat r < nat (size_d a)" by simp
    have nf: "elems a ! j \<noteq> ?key" if "j < nat r" for j
    proof -
      from that a have "0 \<le> int j \<and> int j < r" by (simp add: zless_nat_eq_int_zless)
      with a have "element a (nat (int j)) \<noteq> ?key" by blast
      moreover from that rn have "j < nat (size_d a)" by linarith
      ultimately show ?thesis by (simp add: nth_elems)
    qed
    from rn a have "elems a ! nat r = ?key" by (simp add: nth_elems)
    with rn nf a show ?thesis by auto
  qed
  with r(1) show ?thesis by blast
qed

theorem dynarrFindLinear_first_witness:
  "wf \<lparr>capa = 4, elem = 1, offs = 1, size_d = 3, buf = [9, 7, 9, 9]\<rparr> \<and>
   elems \<lparr>capa = 4, elem = 1, offs = 1, size_d = 3, buf = [9, 7, 9, 9]\<rparr> = [[7], [9], [9]] \<and>
   dynarrFindLinear \<lparr>capa = 4, elem = 1, offs = 1, size_d = 3, buf = [9, 7, 9, 9]\<rparr> [9] = Inr 1 \<and>
   dynarrFindLinear \<lparr>capa = 4, elem = 1, offs = 1, size_d = 3, buf = [9, 7, 9, 9]\<rparr> [5] = Inr (- 1)"
proof -
  let ?a = "\<lparr>capa = 4, elem = 1, offs = 1, size_d = 3, buf = [9, 7, 9, 9]\<rparr>"
  have wf: "wf ?a" by (simp add: wf_def)
  have e: "elems ?a = [[7], [9], [9]]" by code_simp
  have f9: "dynarrFindLinear ?a [9] = Inr 1" by code_simp
  have "\<not> (\<exists>i < nat (size_d ?a). elems ?a ! i = take (nat (elem ?a)) [5])"
  proof
    assume "\<exists>i < nat (size_d ?a). elems ?a ! i = take (nat (elem ?a)) [5]"
    then obtain i where i: "i < 3" "elems ?a ! i = [5]" by auto
    from i(1) consider "i = 0" | "i = 1" | "i = 2" by linarith
    then show False using i(2) by cases (simp_all add: e)
  qed
  with dynarrFindLinear_first [OF wf, of "[5]"] have "dynarrFindLinear ?a [5] = Inr (- 1)"
    by auto
  with wf e f9 show ?thesis by simp
qed

section \<open>\<^verbatim>\<open>dynarrSortInsert\<close> sorts, and is stable\<close>

lemma consistent_by_first_byte: "consistent_order by_first_byte"
  by (auto simp: consistent_order_def by_first_byte_def split: if_splits)

text \<open>
  Claim C8. For every container and every comparison function that is a consistent
  total order, \<^verbatim>\<open>dynarrSortInsert\<close> returns and works in place (header unchanged);
  the elements afterwards are a permutation of the ones before, every adjacent pair
  \<open>e[i], e[i+1]\<close> has \<open>cmp e[i] e[i+1] \<le> 0\<close>, and the elements that compare equal to
  any given \<open>z\<close> stand in their original relative order.
\<close>

theorem dynarrSortInsert_sorts:
  assumes wf: "wf a" and ord: "consistent_order cmp"
  shows "\<exists>a'. dynarrSortInsert a cmp = Inr a' \<and>
           size_d a' = size_d a \<and> elem a' = elem a \<and> offs a' = offs a \<and> capa a' = capa a \<and>
           mset (elems a') = mset (elems a) \<and>
           (\<forall>i. 0 \<le> i \<and> i < size_d a - 1 \<longrightarrow>
                cmp (elems a' ! nat i) (elems a' ! nat (i + 1)) \<le> 0) \<and>
           (\<forall>z. filter (\<lambda>w. cmp z w = 0) (elems a') = filter (\<lambda>w. cmp z w = 0) (elems a))"
proof -
  let ?n = "nat (size_d a - 1)"
  from dynarrSortInsert_outer_refines [OF wf, of 1 cmp]
  obtain a' where a': "dynarrSortInsert a cmp = Inr a'" "size_d a' = size_d a"
    "elem a' = elem a" "offs a' = offs a" "capa a' = capa a"
    "elems a' = passes cmp (elems a) 1 ?n"
    by (auto simp: dynarrSortInsert_def)
  have props: "mset (elems a') = mset (elems a) \<and> adjacent_sorted cmp (elems a') \<and>
      (\<forall>z. filter (\<lambda>w. cmp z w = 0) (elems a') = filter (\<lambda>w. cmp z w = 0) (elems a))"
  proof (cases "size_d a \<le> 0")
    case True
    then have "?n = 0" by simp
    with a'(6) True show ?thesis by (simp add: adjacent_sorted_def)
  next
    case False
    then have len: "1 + ?n = length (elems a)" by simp
    have "adjacent_sorted cmp (take 1 (elems a))" by (simp add: adjacent_sorted_def)
    from adjacent_sorted_passes [OF ord len this] mset_passes [of 1 ?n "elems a" cmp]
      filter_passes [OF ord, of 1 ?n "elems a"] len a'(6)
    show ?thesis by simp
  qed
  have "cmp (elems a' ! nat i) (elems a' ! nat (i + 1)) \<le> 0" if "0 \<le> i \<and> i < size_d a - 1" for i
  proof -
    from that have i: "0 \<le> i" "i < size_d a - 1" by simp_all
    with a'(2) have "Suc (nat i) < length (elems a')" "nat (i + 1) = Suc (nat i)" by simp_all
    with props show ?thesis by (simp add: adjacent_sorted_def)
  qed
  with a'(1-5) props show ?thesis by blast
qed

theorem dynarrSortInsert_sorts_witness:
  "wf \<lparr>capa = 5, elem = 2, offs = 1, size_d = 4, buf = [0, 0, 2, 0, 1, 5, 2, 1, 1, 6]\<rparr> \<and>
   consistent_order by_first_byte \<and>
   elems \<lparr>capa = 5, elem = 2, offs = 1, size_d = 4, buf = [0, 0, 2, 0, 1, 5, 2, 1, 1, 6]\<rparr> =
     [[2, 0], [1, 5], [2, 1], [1, 6]] \<and>
   (\<exists>a'. dynarrSortInsert
            \<lparr>capa = 5, elem = 2, offs = 1, size_d = 4, buf = [0, 0, 2, 0, 1, 5, 2, 1, 1, 6]\<rparr>
            by_first_byte = Inr a' \<and>
         elems a' = [[1, 5], [1, 6], [2, 0], [2, 1]] \<and>
         mset (elems a') = mset [[2, 0], [1, 5], [2, 1], [1, 6]] \<and>
         filter (\<lambda>w. by_first_byte [1] w = 0) (elems a') = [[1, 5], [1, 6]])"
proof -
  let ?a = "\<lparr>capa = 5, elem = 2, offs = 1, size_d = 4, buf = [0, 0, 2, 0, 1, 5, 2, 1, 1, 6]\<rparr>"
  have wf: "wf ?a" by (simp add: wf_def)
  have e: "elems ?a = [[2, 0], [1, 5], [2, 1], [1, 6]]" by code_simp
  have run: "map_sum id elems (dynarrSortInsert ?a by_first_byte) =
      Inr [[1, 5], [1, 6], [2, 0], [2, 1]]"
    by code_simp
  from dynarrSortInsert_sorts [OF wf consistent_by_first_byte]
  obtain a' where a': "dynarrSortInsert ?a by_first_byte = Inr a'"
    "mset (elems a') = mset (elems ?a)"
    "\<forall>z. filter (\<lambda>w. by_first_byte z w = 0) (elems a') =
         filter (\<lambda>w. by_first_byte z w = 0) (elems ?a)"
    by blast
  from run a'(1) have s: "elems a' = [[1, 5], [1, 6], [2, 0], [2, 1]]" by simp
  from a'(3) have "filter (\<lambda>w. by_first_byte [1] w = 0) (elems a') =
      filter (\<lambda>w. by_first_byte [1] w = 0) (elems ?a)"
    by blast
  also have "\<dots> = [[1, 5], [1, 6]]" unfolding e by (simp add: by_first_byte_def)
  finally have f: "filter (\<lambda>w. by_first_byte [1] w = 0) (elems a') = [[1, 5], [1, 6]]" .
  from a'(2) e have m: "mset (elems a') = mset [[2, 0], [1, 5], [2, 1], [1, 6]]" by simp
  from wf consistent_by_first_byte e a'(1) s m f show ?thesis by blast
qed

section \<open>Resizing to a negative size\<close>

text \<open>
  Claim C9. For every container (with a length that is not negative) and every requested
  size \<open>s < 0\<close>, \<^verbatim>\<open>dynarrResize\<close> sets the length and the offset to 0, calls no
  allocator, and returns 0: not \<open>s\<close> and not the failure sentinel.
\<close>

theorem dynarrResize_negative:
  "0 \<le> size_d a \<Longrightarrow> s < 0 \<Longrightarrow> dynarrResize ra a s = Inr (0, a\<lparr>size_d := 0, offs := 0\<rparr>)"
  by (simp add: dynarrResize_def)

theorem dynarrResize_negative_witness:
  "dynarrResize ra_fail \<lparr>capa = 2, elem = 1, offs = 1, size_d = 1, buf = [7, 9]\<rparr> (- 3) =
     Inr (0, \<lparr>capa = 2, elem = 1, offs = 0, size_d = 0, buf = [7, 9]\<rparr>)"
  using dynarrResize_negative [of "\<lparr>capa = 2, elem = 1, offs = 1, size_d = 1, buf = [7, 9]\<rparr>" "- 3" ra_fail]
  by simp

section \<open>Room after \<^verbatim>\<open>dynarrGrow\<close>\<close>

lemma dynarrGrow_room:
  assumes wf: "wf a" and c: "0 < capa a" and g: "dynarrGrow ra a = Inr (0, a1)"
  shows "offs a1 + size_d a1 < capa a1"
  using wf
proof (cases rule: dynarrGrow_ok [where ra = ra])
  case fail
  with g show ?thesis by simp
next
  case overflow
  with g show ?thesis by simp
next
  case (ok a2)
  with g have "a2 = a1" by simp
  with ok(6) [OF c] show ?thesis by simp
qed

text \<open>
  With a capacity of at least 1 the success of \<^verbatim>\<open>dynarrGrow\<close> does leave room for one
  element (\<open>dynarrGrow_room\<close>); with capacity 0 it does not (\<open>push_capacity_zero\<close>).
\<close>

text \<open>
  Claim C10, at the input where the code leaves it. On the state that
  \<^verbatim>\<open>DYNARR_CAPACITY(a, 0)\<close> produces, \<^verbatim>\<open>dynarrGrow\<close> returns success (0) with
  \<open>offs + size = capa\<close>, not \<open>offs + size < capa\<close>, and the store of the
  following \<^verbatim>\<open>DYNARR_PUSH\<close> is out of bounds.
\<close>

theorem dynarrGrow_capacity_zero:
  "dynarrCapacity ra_ok \<lparr>capa = 1, elem = 1, offs = 0, size_d = 0, buf = [0]\<rparr> 0 =
     Inr (0, \<lparr>capa = 0, elem = 1, offs = 0, size_d = 0, buf = []\<rparr>) \<and>
   dynarrGrow ra_ok \<lparr>capa = 0, elem = 1, offs = 0, size_d = 0, buf = []\<rparr> =
     Inr (0, \<lparr>capa = 0, elem = 1, offs = 0, size_d = 0, buf = []\<rparr>) \<and>
   DYNARR_PUSH ra_ok \<lparr>capa = 0, elem = 1, offs = 0, size_d = 0, buf = []\<rparr> [5] = Inl OutOfBounds"
  by code_simp

end
